theory Spec2Isabelle
  imports Main "HOL-Library.Multiset"
begin

section \<open>The ER7 parser of hl7apy (hl7apy/parser.py)\<close>

text \<open>
  A shallow embedding of \<^verbatim>\<open>hl7apy/parser.py\<close>. Python strings are \<open>string\<close>
  (8-bit characters, as Python 2 \<^verbatim>\<open>str\<close>), exceptions are the left summand of
  \<open>error + 'a\<close>, and the objects the group search mutates live in an explicit store.
\<close>

subsection \<open>Exceptions\<close>

datatype error =
    InvalidName
  | InvalidEncodingChars
  | ParserError
  | IndexError
  | ValueError
  | OtherError string

subsection \<open>Python string primitives\<close>

text \<open>
  The characters Python 2 \<^verbatim>\<open>str.strip()\<close>, \<^verbatim>\<open>str.isspace()\<close> and the regular
  expression class \<^verbatim>\<open>\s\<close> treat as whitespace: space, \<^verbatim>\<open>\t \n \v \f \r\<close>.
\<close>

definition CR :: char where
  "CR = CHR 0x0D"

definition is_space :: "char \<Rightarrow> bool" where
  "is_space c = (c \<in> set [CHR 0x20, CHR 0x09, CHR 0x0A, CHR 0x0B, CHR 0x0C, CHR 0x0D])"

text \<open>\<^verbatim>\<open>s.strip()\<close>: whitespace removed at both ends.\<close>

definition strip :: "string \<Rightarrow> string" where
  "strip s = rev (dropWhile is_space (rev (dropWhile is_space s)))"

text \<open>\<^verbatim>\<open>s.strip(c)\<close> for a one-character argument.\<close>

definition strip_char :: "char \<Rightarrow> string \<Rightarrow> string" where
  "strip_char c s = rev (dropWhile (\<lambda>x. x = c) (rev (dropWhile (\<lambda>x. x = c) s)))"

text \<open>
  \<^verbatim>\<open>s.split(sep)\<close> for a one-character separator: every occurrence of the
  separator ends a piece, empty pieces are kept, and the result is never empty.
\<close>

fun split :: "char \<Rightarrow> string \<Rightarrow> string list" where
  "split sep [] = [[]]"
| "split sep (c # cs) =
     (if c = sep then [] # split sep cs
      else (case split sep cs of
              [] \<Rightarrow> [[c]]
            | w # ws \<Rightarrow> (c # w) # ws))"

text \<open>\<^verbatim>\<open>s.split(sep, 1)[0]\<close>: the text before the first separator.\<close>

definition split_first :: "char \<Rightarrow> string \<Rightarrow> string" where
  "split_first sep s = takeWhile (\<lambda>c. c \<noteq> sep) s"

text \<open>\<^verbatim>\<open>xs[i]\<close> for a non-negative index, raising \<^verbatim>\<open>IndexError\<close> out of range.\<close>

definition nth_opt :: "'a list \<Rightarrow> nat \<Rightarrow> 'a option" where
  "nth_opt xs i = (if i < length xs then Some (xs ! i) else None)"

text \<open>Decimal formatting of a non-negative integer, as \<^verbatim>\<open>"{0}".format(n)\<close>.\<close>

definition digit_char :: "nat \<Rightarrow> char" where
  "digit_char d = ''0123456789'' ! d"

fun string_of_nat :: "nat \<Rightarrow> string" where
  "string_of_nat n =
     (if n < 10 then [digit_char n]
      else string_of_nat (n div 10) @ [digit_char (n mod 10)])"

declare string_of_nat.simps [simp del]

subsection \<open>The separator extractor: \<^verbatim>\<open>get_message_info\<close>\<close>

record encoding_chars =
  FIELD :: char
  COMPONENT :: char
  SUBCOMPONENT :: char
  REPETITION :: char
  ESCAPE :: char
  SEGMENT :: char
  GROUP :: char

text \<open>
  \<^verbatim>\<open>hl7apy.consts.N_SEPS\<close> is imported by the parser and not defined in it.
  Modelled from the spec: the control field holds exactly four encoding characters.
\<close>

definition N_SEPS :: nat where
  "N_SEPS = 4"

text \<open>
  \<^verbatim>\<open>re.compile("^MSH(?P<field_sep>\S){1}").match(content)\<close>: the group
  \<^verbatim>\<open>field_sep\<close> of the match, or \<open>None\<close> when the text does not start with
  \<^verbatim>\<open>MSH\<close> and one non-whitespace character.
\<close>

fun regex_match :: "string \<Rightarrow> char option" where
  "regex_match (m # s # h # f # rest) =
     (if [m, s, h] = ''MSH'' \<and> \<not> is_space f then Some f else None)"
| "regex_match _ = None"

text \<open>The message structure of MSH.9 (lines 474-486).\<close>

definition message_structure_of :: "string list \<Rightarrow> char \<Rightarrow> string option" where
  "message_structure_of flds comp_sep =
     (case nth_opt flds 8 of
        None \<Rightarrow> None
      | Some f9 \<Rightarrow>
          (let msh_9 = strip f9;
               message_type = split comp_sep msh_9
           in case nth_opt message_type 2 of
                Some ms \<Rightarrow> Some ms
              | None \<Rightarrow>
                  (case (nth_opt message_type 0, nth_opt message_type 1) of
                     (Some t0, Some t1) \<Rightarrow> Some (t0 @ ''_'' @ t1)
                   | _ \<Rightarrow> None)))"

text \<open>The version of MSH.12 (lines 489-498).\<close>

definition version_of :: "string list \<Rightarrow> char \<Rightarrow> string option" where
  "version_of flds comp_sep =
     (case nth_opt flds 11 of
        None \<Rightarrow> None
      | Some f12 \<Rightarrow>
          (let msh_12 = strip f12;
               version_id = split comp_sep msh_12
           in nth_opt version_id 0))"

definition get_message_info ::
  "string \<Rightarrow> error + (encoding_chars \<times> string option \<times> string option)" where
  "get_message_info content =
     (case regex_match content of
        None \<Rightarrow> Inl ParserError
      | Some field_sep \<Rightarrow>
          (let msh = split_first CR content;
               flds = split field_sep msh
           in case nth_opt flds 1 of
                None \<Rightarrow> Inl IndexError
              | Some seps \<Rightarrow>
                  if length seps > length (remdups seps) then Inl InvalidEncodingChars
                  else
                    (case seps of
                       [comp_sep, rep_sep, escape, sub_sep] \<Rightarrow>
                         (let encoding_chars =
                                \<lparr>FIELD = field_sep, COMPONENT = comp_sep,
                                 SUBCOMPONENT = sub_sep, REPETITION = rep_sep,
                                 ESCAPE = escape, SEGMENT = CR, GROUP = CR\<rparr>
                          in Inr (encoding_chars,
                                  message_structure_of flds (COMPONENT encoding_chars),
                                  version_of flds (COMPONENT encoding_chars)))
                     | _ \<Rightarrow>
                         if length seps < N_SEPS then Inl InvalidEncodingChars
                         else Inl InvalidEncodingChars)))"


subsection \<open>Element nodes and the external collaborators\<close>

type_synonym version = string

text \<open>A validation level as the parser receives it; \<open>None\<close> asks for the default.\<close>

type_synonym validation_level = "int option"

text \<open>A reference tuple such as \<^verbatim>\<open>('leaf', 'varies', None, None)\<close>.\<close>

type_synonym reference = "string \<times> string \<times> string option \<times> string option"

record subcomponent =
  sc_name :: "string option"
  sc_datatype :: "string option"
  sc_value :: string

record component =
  c_name :: "string option"
  c_datatype :: "string option"
  c_validation_level :: validation_level
  c_children :: "subcomponent list"

record field =
  f_name :: "string option"
  f_datatype :: "string option"
  f_children :: "component list"

record segment =
  seg_name :: string
  seg_allow_infinite_children :: bool
  seg_children :: "field list"

text \<open>
  The parser imports the element classes and \<^verbatim>\<open>is_base_datatype\<close> from
  \<^verbatim>\<open>hl7apy.core\<close> and the policy predicates from \<^verbatim>\<open>hl7apy.validation\<close>;
  neither module is part of the parser. They are parameters of the model: a
  constructor takes the arguments the parser passes, in the order of the class
  signature (an argument the call omits is \<open>None\<close>), and returns the new node
  or the exception it raises.
\<close>

record core =
  is_base_datatype :: "string option \<Rightarrow> version \<Rightarrow> bool"
  is_strict :: "validation_level \<Rightarrow> bool"
  is_quiet :: "validation_level \<Rightarrow> bool"
  Segment :: "string \<Rightarrow> version option \<Rightarrow> validation_level \<Rightarrow> reference option
                \<Rightarrow> error + segment"
  Field :: "string option \<Rightarrow> version option \<Rightarrow> validation_level \<Rightarrow> reference option
                \<Rightarrow> error + field"
  Component :: "string option \<Rightarrow> string option \<Rightarrow> version option \<Rightarrow> validation_level
                \<Rightarrow> reference option \<Rightarrow> error + component"
  SubComponent :: "string option \<Rightarrow> string option \<Rightarrow> string \<Rightarrow> version option
                \<Rightarrow> validation_level \<Rightarrow> error + subcomponent"

text \<open>
  Modelled from the spec: attaching a node appends it to the ordered child list of
  its parent (\<^verbatim>\<open>Element.add\<close> is defined in \<^verbatim>\<open>hl7apy.core\<close>).
\<close>

definition component_add :: "component \<Rightarrow> subcomponent \<Rightarrow> component" where
  "component_add c s = c\<lparr>c_children := c_children c @ [s]\<rparr>"

definition field_add :: "field \<Rightarrow> component \<Rightarrow> field" where
  "field_add f c = f\<lparr>f_children := f_children f @ [c]\<rparr>"

text \<open>\<^verbatim>\<open>"{0}_{1}".format(prefix, n)\<close>\<close>

definition format_name :: "string \<Rightarrow> nat \<Rightarrow> string" where
  "format_name prefix n = prefix @ ''_'' @ string_of_nat n"

text \<open>\<^verbatim>\<open>name.startswith(p)\<close>\<close>

definition startswith :: "string \<Rightarrow> string \<Rightarrow> bool" where
  "startswith name p = (take (length p) name = p)"

subsection \<open>Sub-components\<close>

definition parse_subcomponent ::
  "core \<Rightarrow> string \<Rightarrow> string option \<Rightarrow> string option \<Rightarrow> version \<Rightarrow> validation_level
     \<Rightarrow> error + subcomponent" where
  "parse_subcomponent core text name datatype version validation_level =
     SubComponent core name datatype text (Some version) validation_level"

text \<open>The loop of \<^verbatim>\<open>parse_subcomponents\<close> over \<^verbatim>\<open>enumerate(text.split(subcomp_sep))\<close>.\<close>

fun parse_subcomponents_loop ::
  "core \<Rightarrow> string option \<Rightarrow> version \<Rightarrow> validation_level \<Rightarrow> nat \<Rightarrow> string list
     \<Rightarrow> error + subcomponent list" where
  "parse_subcomponents_loop core component_datatype version validation_level index [] = Inr []"
| "parse_subcomponents_loop core component_datatype version validation_level index
      (subcomponent # rest) =
     (let (subcomponent_name, subcomponent_datatype) =
            (if is_base_datatype core component_datatype version \<or> component_datatype = None
             then (None, if component_datatype \<noteq> None then component_datatype else Some ''ST'')
             else (map_option (\<lambda>d. format_name d (index + 1)) component_datatype, None))
      in if strip subcomponent \<noteq> [] \<or> subcomponent_name = None
         then (case parse_subcomponent core subcomponent subcomponent_name
                      subcomponent_datatype version validation_level of
                 Inl e \<Rightarrow> Inl e
               | Inr s \<Rightarrow>
                   (case parse_subcomponents_loop core component_datatype version
                           validation_level (index + 1) rest of
                      Inl e \<Rightarrow> Inl e
                    | Inr subcomponents \<Rightarrow> Inr (s # subcomponents)))
         else parse_subcomponents_loop core component_datatype version validation_level
                (index + 1) rest)"

definition parse_subcomponents ::
  "core \<Rightarrow> string \<Rightarrow> string option \<Rightarrow> version \<Rightarrow> encoding_chars \<Rightarrow> validation_level
     \<Rightarrow> error + subcomponent list" where
  "parse_subcomponents core text component_datatype version encoding_chars validation_level =
     (let subcomp_sep = SUBCOMPONENT encoding_chars
      in parse_subcomponents_loop core component_datatype version validation_level 0
           (split subcomp_sep text))"

subsection \<open>Components\<close>

text \<open>
  The \<^verbatim>\<open>try\<close> statement of \<^verbatim>\<open>parse_component\<close> (lines 348-353). The fallback
  call \<^verbatim>\<open>Component(datatype, ...)\<close> passes the datatype as first positional
  argument.
\<close>

definition construct_component ::
  "core \<Rightarrow> string option \<Rightarrow> string option \<Rightarrow> version \<Rightarrow> validation_level
     \<Rightarrow> reference option \<Rightarrow> error + component" where
  "construct_component core name datatype version validation_level reference =
     (case Component core name datatype (Some version) validation_level reference of
        Inl InvalidName \<Rightarrow>
          if is_strict core validation_level then Inl InvalidName
          else Component core datatype None (Some version) validation_level reference
      | Inl e \<Rightarrow> Inl e
      | Inr component \<Rightarrow> Inr component)"

definition parse_component ::
  "core \<Rightarrow> string \<Rightarrow> string option \<Rightarrow> string option \<Rightarrow> version \<Rightarrow> encoding_chars
     \<Rightarrow> validation_level \<Rightarrow> reference option \<Rightarrow> error + component" where
  "parse_component core text name datatype version encoding_chars validation_level reference =
     (case construct_component core name datatype version validation_level reference of
        Inl e \<Rightarrow> Inl e
      | Inr component \<Rightarrow>
          (case parse_subcomponents core text (c_datatype component) version encoding_chars
                  validation_level of
             Inl e \<Rightarrow> Inl e
           | Inr children \<Rightarrow>
               (let component =
                      (if is_quiet core (c_validation_level component)
                          \<and> is_base_datatype core (c_datatype component) version
                          \<and> length children > 1
                       then component\<lparr>c_datatype := None\<rparr> else component)
                in Inr (component\<lparr>c_children := children\<rparr>))))"

text \<open>The loop of \<^verbatim>\<open>parse_components\<close> over \<^verbatim>\<open>enumerate(text.split(component_sep))\<close>.\<close>

fun parse_components_loop ::
  "core \<Rightarrow> string option \<Rightarrow> version \<Rightarrow> encoding_chars \<Rightarrow> validation_level \<Rightarrow> nat
     \<Rightarrow> string list \<Rightarrow> error + component list" where
  "parse_components_loop core field_datatype version encoding_chars validation_level index [] =
     Inr []"
| "parse_components_loop core field_datatype version encoding_chars validation_level index
      (component # rest) =
     (let (component_datatype, component_name) =
            (if is_base_datatype core field_datatype version then (field_datatype, None)
             else if field_datatype = None \<or> field_datatype = Some ''varies''
             then (None, Some (format_name ''VARIES'' (index + 1)))
             else (None, map_option (\<lambda>d. format_name d (index + 1)) field_datatype))
      in if strip component \<noteq> [] \<or> component_name = None
            \<or> (case component_name of None \<Rightarrow> False | Some n \<Rightarrow> startswith n ''VARIES_'')
         then (case parse_component core component component_name component_datatype version
                      encoding_chars validation_level None of
                 Inl e \<Rightarrow> Inl e
               | Inr c \<Rightarrow>
                   (case parse_components_loop core field_datatype version encoding_chars
                           validation_level (index + 1) rest of
                      Inl e \<Rightarrow> Inl e
                    | Inr components \<Rightarrow> Inr (c # components)))
         else parse_components_loop core field_datatype version encoding_chars
                validation_level (index + 1) rest)"

definition parse_components ::
  "core \<Rightarrow> string \<Rightarrow> string option \<Rightarrow> version \<Rightarrow> encoding_chars \<Rightarrow> validation_level
     \<Rightarrow> error + component list" where
  "parse_components core text field_datatype version encoding_chars validation_level =
     (let component_sep = COMPONENT encoding_chars
      in parse_components_loop core field_datatype version encoding_chars validation_level 0
           (split component_sep text))"

subsection \<open>Fields\<close>

text \<open>The \<^verbatim>\<open>try\<close> statement of \<^verbatim>\<open>parse_field\<close> (lines 239-246).\<close>

definition construct_field ::
  "core \<Rightarrow> string option \<Rightarrow> version \<Rightarrow> validation_level \<Rightarrow> reference option \<Rightarrow> bool
     \<Rightarrow> error + field" where
  "construct_field core name version validation_level reference force_varies =
     (case Field core name (Some version) validation_level reference of
        Inl InvalidName \<Rightarrow>
          if force_varies
          then (let reference = Some (''leaf'', ''varies'', None, None)
                in Field core name (Some version) validation_level reference)
          else Field core None (Some version) validation_level reference
      | Inl e \<Rightarrow> Inl e
      | Inr field \<Rightarrow> Inr field)"

definition parse_field ::
  "core \<Rightarrow> string \<Rightarrow> string option \<Rightarrow> version \<Rightarrow> encoding_chars \<Rightarrow> validation_level
     \<Rightarrow> reference option \<Rightarrow> bool \<Rightarrow> error + field" where
  "parse_field core text name version encoding_chars validation_level reference force_varies =
     (case construct_field core name version validation_level reference force_varies of
        Inl e \<Rightarrow> Inl e
      | Inr field \<Rightarrow>
          if name \<in> {Some ''MSH_1'', Some ''MSH_2''}
          then (case SubComponent core None (Some ''ST'') text None None of
                  Inl e \<Rightarrow> Inl e
                | Inr s \<Rightarrow>
                    (case Component core None (Some ''ST'') None None None of
                       Inl e \<Rightarrow> Inl e
                     | Inr c \<Rightarrow> Inr (field_add field (component_add c s))))
          else (case parse_components core text (f_datatype field) version encoding_chars
                       validation_level of
                  Inl e \<Rightarrow> Inl e
                | Inr children \<Rightarrow>
                    (let field =
                           (if is_quiet core validation_level
                               \<and> is_base_datatype core (f_datatype field) version
                               \<and> length children > 1
                            then field\<lparr>f_datatype := None\<rparr> else field)
                     in Inr (field\<lparr>f_children := children\<rparr>))))"

text \<open>The inner loop of \<^verbatim>\<open>parse_fields\<close> over \<^verbatim>\<open>field.split(repetition_sep)\<close>.\<close>

fun parse_field_repetitions ::
  "core \<Rightarrow> string option \<Rightarrow> version \<Rightarrow> encoding_chars \<Rightarrow> validation_level \<Rightarrow> bool
     \<Rightarrow> string list \<Rightarrow> error + field list" where
  "parse_field_repetitions core name version encoding_chars validation_level force_varies [] =
     Inr []"
| "parse_field_repetitions core name version encoding_chars validation_level force_varies
      (rep # rest) =
     (case parse_field core rep name version encoding_chars validation_level None force_varies of
        Inl e \<Rightarrow> Inl e
      | Inr f \<Rightarrow>
          (case parse_field_repetitions core name version encoding_chars validation_level
                  force_varies rest of
             Inl e \<Rightarrow> Inl e
           | Inr fs \<Rightarrow> Inr (f # fs)))"

text \<open>
  One iteration of the loop of \<^verbatim>\<open>parse_fields\<close> (lines 186-194): the fields that
  the slot \<open>field\<close> at position \<open>index\<close> appends to the result.
\<close>

definition parse_fields_slot ::
  "core \<Rightarrow> string option \<Rightarrow> version \<Rightarrow> encoding_chars \<Rightarrow> validation_level \<Rightarrow> bool
     \<Rightarrow> nat \<Rightarrow> string \<Rightarrow> error + field list" where
  "parse_fields_slot core name_prefix version encoding_chars validation_level force_varies
      index field =
     (let field_sep = FIELD encoding_chars;
          repetition_sep = REPETITION encoding_chars;
          name = map_option (\<lambda>p. format_name p (index + 1)) name_prefix
      in if strip field \<noteq> [] \<or> name = None
         then (if name = Some ''MSH_2''
               then (case parse_field core field name version encoding_chars validation_level
                            None False of
                       Inl e \<Rightarrow> Inl e
                     | Inr f \<Rightarrow> Inr [f])
               else parse_field_repetitions core name version encoding_chars validation_level
                      force_varies (split repetition_sep field))
         else if name = Some ''MSH_1''
         then (case parse_field core [field_sep] name version encoding_chars validation_level
                      None False of
                 Inl e \<Rightarrow> Inl e
               | Inr f \<Rightarrow> Inr [f])
         else Inr [])"

fun parse_fields_loop ::
  "core \<Rightarrow> string option \<Rightarrow> version \<Rightarrow> encoding_chars \<Rightarrow> validation_level \<Rightarrow> bool
     \<Rightarrow> nat \<Rightarrow> string list \<Rightarrow> error + field list" where
  "parse_fields_loop core name_prefix version encoding_chars validation_level force_varies
      index [] = Inr []"
| "parse_fields_loop core name_prefix version encoding_chars validation_level force_varies
      index (field # rest) =
     (case parse_fields_slot core name_prefix version encoding_chars validation_level
             force_varies index field of
        Inl e \<Rightarrow> Inl e
      | Inr fs \<Rightarrow>
          (case parse_fields_loop core name_prefix version encoding_chars validation_level
                  force_varies (index + 1) rest of
             Inl e \<Rightarrow> Inl e
           | Inr others \<Rightarrow> Inr (fs @ others)))"

definition parse_fields ::
  "core \<Rightarrow> string \<Rightarrow> string option \<Rightarrow> version \<Rightarrow> encoding_chars \<Rightarrow> validation_level
     \<Rightarrow> bool \<Rightarrow> error + field list" where
  "parse_fields core text name_prefix version encoding_chars validation_level force_varies =
     (let text = strip_char CR text;
          field_sep = FIELD encoding_chars;
          splitted_fields = split field_sep text
      in parse_fields_loop core name_prefix version encoding_chars validation_level
           force_varies 0 splitted_fields)"

subsection \<open>Segments\<close>

definition parse_segment ::
  "core \<Rightarrow> string \<Rightarrow> version \<Rightarrow> encoding_chars \<Rightarrow> validation_level \<Rightarrow> reference option
     \<Rightarrow> error + segment" where
  "parse_segment core text version encoding_chars validation_level reference =
     (let segment_name = take 3 text;
          text = (if segment_name \<noteq> ''MSH'' then drop 4 text else drop 3 text)
      in case Segment core segment_name (Some version) validation_level reference of
           Inl e \<Rightarrow> Inl e
         | Inr segment \<Rightarrow>
             (case parse_fields core text (Some segment_name) version encoding_chars
                     validation_level (seg_allow_infinite_children segment) of
                Inl e \<Rightarrow> Inl e
              | Inr children \<Rightarrow> Inr (segment\<lparr>seg_children := children\<rparr>)))"

subsection \<open>Python list primitives\<close>

text \<open>\<^verbatim>\<open>xs.index(x)\<close>: the first position of \<open>x\<close>, \<^verbatim>\<open>ValueError\<close> when absent.\<close>

fun index_of :: "'a \<Rightarrow> 'a list \<Rightarrow> nat option" where
  "index_of x [] = None"
| "index_of x (y # ys) = (if x = y then Some 0 else map_option Suc (index_of x ys))"

text \<open>
  \<^verbatim>\<open>xs[i]\<close> and \<^verbatim>\<open>xs[i] = v\<close> for a Python integer: a negative index counts
  from the end, and an index out of range raises \<^verbatim>\<open>IndexError\<close>.
\<close>

definition py_index :: "'a list \<Rightarrow> int \<Rightarrow> nat option" where
  "py_index xs i =
     (if 0 \<le> i \<and> i < int (length xs) then Some (nat i)
      else if i < 0 \<and> - int (length xs) \<le> i then Some (nat (int (length xs) + i))
      else None)"

definition py_get :: "'a list \<Rightarrow> int \<Rightarrow> 'a option" where
  "py_get xs i = map_option (\<lambda>j. xs ! j) (py_index xs i)"

definition py_set :: "'a list \<Rightarrow> int \<Rightarrow> 'a \<Rightarrow> 'a list option" where
  "py_set xs i v = map_option (\<lambda>j. xs[j := v]) (py_index xs i)"

subsection \<open>Message grammars\<close>

text \<open>
  Modelled from the spec: \<^verbatim>\<open>ElementFinder.get_structure\<close> (of \<^verbatim>\<open>hl7apy.core\<close>)
  returns, for a message or a group, its ordered child slots, each with a name, an
  element class and cardinality bounds \<open>(min, max)\<close>. A slot carries here what
  \<^verbatim>\<open>structure['structure_by_name'][name]\<close> and \<^verbatim>\<open>structure['repetitions'][name]\<close>
  hold for its name, and a group slot carries the structure that
  \<^verbatim>\<open>get_structure\<close> returns for a group of that name.
\<close>

datatype cls = Segment_cls | Group_cls

datatype slot =
  Slot (slot_name: string) (slot_cls: cls) (slot_repetitions: "int \<times> int")
       (slot_structure: "slot list")

type_synonym "structure" = "slot list"

text \<open>\<^verbatim>\<open>structure['structure_by_name'].keys()\<close>\<close>

definition structure_keys :: "structure \<Rightarrow> string list" where
  "structure_keys structure = map slot_name structure"

text \<open>
  \<^verbatim>\<open>[k for k, v in structure['structure_by_name'].iteritems() if v['cls'] == Group]\<close>,
  each name with its slot.
\<close>

definition structure_groups :: "structure \<Rightarrow> slot list" where
  "structure_groups structure = filter (\<lambda>v. slot_cls v = Group_cls) structure"

fun slot_size :: "slot \<Rightarrow> nat" where
  "slot_size (Slot n c r children) = Suc (sum_list (map slot_size children))"

definition structure_size :: "structure \<Rightarrow> nat" where
  "structure_size structure = sum_list (map slot_size structure)"

subsection \<open>The object store of the group search\<close>

text \<open>
  The message and the groups are objects that the search mutates through the
  references it keeps in \<^verbatim>\<open>search_data['parents']\<close>. An object is an address
  into the store; the message is at address 0 and a new group takes the next
  free address. A segment is a value: the search never changes one.
\<close>

datatype child = SegmentChild segment | GroupChild nat

record element =
  el_name :: string
  el_children :: "child list"
  el_parent :: "nat option"

type_synonym store = "element list"

text \<open>
  The dictionary \<^verbatim>\<open>search_data\<close> with its three parallel lists (the top of each
  stack is the last element), together with the store.
\<close>

record state =
  parents :: "nat list"
  indexes :: "int list"
  structures :: "structure list"
  heap :: store

text \<open>
  Modelled from the spec: \<^verbatim>\<open>parent.add(segment)\<close> attaches the segment as the
  last child of the parent.
\<close>

definition add_segment :: "store \<Rightarrow> nat \<Rightarrow> segment \<Rightarrow> store" where
  "add_segment h parent segment =
     h[parent := (h ! parent)\<lparr>el_children := el_children (h ! parent) @ [SegmentChild segment]\<rparr>]"

text \<open>
  Modelled from the spec: \<^verbatim>\<open>group.parent = parent\<close> records the parent and attaches
  the group as the last child of that parent.
\<close>

definition set_parent :: "store \<Rightarrow> nat \<Rightarrow> nat \<Rightarrow> store" where
  "set_parent h grp parent =
     (let h1 = h[grp := (h ! grp)\<lparr>el_parent := Some parent\<rparr>]
      in h1[parent := (h1 ! parent)\<lparr>el_children := el_children (h1 ! parent) @ [GroupChild grp]\<rparr>])"

text \<open>
  Modelled from the spec: \<^verbatim>\<open>Group(g, ...)\<close> for a slot of the grammar creates a
  new, empty, unattached group node (the schema provider answers for every name
  reachable from the message structure).
\<close>

definition new_group :: "string \<Rightarrow> element" where
  "new_group g = \<lparr>el_name = g, el_children = [], el_parent = None\<rparr>"

subsection \<open>The structure assigner: \<^verbatim>\<open>_go_back\<close>, \<^verbatim>\<open>_find_group\<close>, \<^verbatim>\<open>create_groups\<close>\<close>

definition go_back :: "state \<Rightarrow> error + state" where
  "go_back st =
     (if parents st = [] then Inl IndexError
      else if structures st = [] then Inl IndexError
      else if indexes st = [] then Inl IndexError
      else Inr (st\<lparr>parents := butlast (parents st),
                    structures := butlast (structures st),
                    indexes := butlast (indexes st)\<rparr>))"

text \<open>The measure of the recursion of \<^verbatim>\<open>_find_group\<close>.\<close>

definition find_group_measure :: "state \<Rightarrow> nat" where
  "find_group_measure st =
     (if indexes st = [] \<or> structures st = [] then 0
      else if last (indexes st) < 0 then 2 * structure_size (last (structures st)) + 1
      else 2 * sum_list (map structure_size (structures st)) + 2 * length (structures st) + 1)"

lemma structure_size_filter: "structure_size (filter P xs) \<le> structure_size xs"
  by (induction xs) (auto simp: structure_size_def)

lemma structure_size_last:
  "xs \<noteq> [] \<Longrightarrow> sum_list (map structure_size (butlast xs)) + structure_size (last xs)
     = sum_list (map structure_size xs)"
  by (induction xs rule: rev_induct) auto

lemma structure_size_last_le:
  "xs \<noteq> [] \<Longrightarrow> structure_size (last xs) \<le> sum_list (map structure_size xs)"
  using structure_size_last [of xs] by simp

lemma structure_size_Cons:
  "structure_size (g # groups) = Suc (structure_size (slot_structure g)) + structure_size groups"
  by (cases g) (simp add: structure_size_def)

text \<open>
  \<^verbatim>\<open>_find_group\<close> returns the value of \<^verbatim>\<open>search_index\<close> and the search data and
  store as it leaves them. \<open>find_group_groups\<close> is its loop
  \<^verbatim>\<open>for g in groups\<close> (lines 558-573), which ends with \<open>- 1\<close> when no group
  takes the segment.
\<close>

function find_group :: "segment \<Rightarrow> state \<Rightarrow> error + (int \<times> state)"
  and find_group_groups ::
    "segment \<Rightarrow> structure \<Rightarrow> slot list \<Rightarrow> state \<Rightarrow> error + (int \<times> state)" where
  "find_group segment st =
     (if indexes st = [] then Inl IndexError
      else
        (let current_index = last (indexes st)
         in if structures st = [] then Inl IndexError
            else
              (let structure = last (structures st)
               in case index_of (seg_name segment) (structure_keys structure) of
                    None \<Rightarrow>
                      find_group_groups segment structure (structure_groups structure) st
                  | Some search_index \<Rightarrow>
                      if int search_index \<le> current_index
                         \<and> snd (slot_repetitions (structure ! search_index)) = 1
                      then (case go_back st of
                              Inl e \<Rightarrow> Inl e
                            | Inr st1 \<Rightarrow> find_group segment st1)
                      else
                        (let st1 = st\<lparr>indexes := butlast (indexes st) @ [int search_index]\<rparr>
                         in if parents st1 = [] then Inl IndexError
                            else
                              (let parent = last (parents st1)
                               in Inr (int search_index,
                                       st1\<lparr>heap := add_segment (heap st1) parent segment\<rparr>))))))"
| "find_group_groups segment structure [] st = Inr (- 1, st)"
| "find_group_groups segment structure (g # groups) st =
     (let grp = length (heap st);
          st1 = st\<lparr>heap := heap st @ [new_group (slot_name g)]\<rparr>;
          p_structure = slot_structure g;
          st2 = st1\<lparr>structures := structures st1 @ [p_structure],
                    parents := parents st1 @ [grp],
                    indexes := indexes st1 @ [- 1]\<rparr>
      in case find_group segment st2 of
           Inl e \<Rightarrow> Inl e
         | Inr (found_index, st3) \<Rightarrow>
             if found_index > - 1
             then (case index_of grp (parents st3) of
                     None \<Rightarrow> Inl ValueError
                   | Some i \<Rightarrow>
                       (let find_parent = int i - 1
                        in case py_get (parents st3) find_parent of
                             None \<Rightarrow> Inl IndexError
                           | Some parent \<Rightarrow>
                               (let st4 = st3\<lparr>heap := set_parent (heap st3) grp parent\<rparr>
                                in case index_of (slot_name g) (structure_keys structure) of
                                     None \<Rightarrow> Inl ValueError
                                   | Some search_index \<Rightarrow>
                                       (case py_set (indexes st4) find_parent
                                               (int search_index) of
                                          None \<Rightarrow> Inl IndexError
                                        | Some indexes' \<Rightarrow>
                                            Inr (int search_index,
                                                 st4\<lparr>indexes := indexes'\<rparr>)))))
             else (case go_back st3 of
                     Inl e \<Rightarrow> Inl e
                   | Inr st4 \<Rightarrow> find_group_groups segment structure groups st4))"
  by pat_completeness auto
termination
  apply (relation "measure (\<lambda>x. case x of
          Inl (segment, st) \<Rightarrow> find_group_measure st
        | Inr (segment, structure, groups, st) \<Rightarrow> 2 * structure_size groups)")
      apply simp
  subgoal for segment st x xa
    using structure_size_filter [of "(\<lambda>v. slot_cls v = Group_cls)" "last (structures st)"]
      structure_size_last [of "structures st"]
    by (auto simp: find_group_measure_def structure_groups_def)
  subgoal for segment st x xa x2 x2a
    using structure_size_last [of "structures st"]
      structure_size_last_le [of "butlast (structures st)"]
    by (auto simp: find_group_measure_def go_back_def length_greater_0_conv [symmetric]
             simp del: length_greater_0_conv split: if_splits)
  subgoal
    by (simp add: find_group_measure_def structure_size_Cons)
  subgoal
    by (simp add: structure_size_Cons)
  done


declare find_group.simps [simp del]

text \<open>
  The loop \<^verbatim>\<open>for x in xrange(len(search_data['structures']))\<close> of
  \<^verbatim>\<open>create_groups\<close> (lines 520-526); the number of iterations is fixed when the
  loop starts. It ends with the last value of \<^verbatim>\<open>found\<close>.
\<close>

fun search_levels :: "nat \<Rightarrow> segment \<Rightarrow> state \<Rightarrow> error + (int \<times> state)" where
  "search_levels 0 c st = Inr (- 1, st)"
| "search_levels (Suc n) c st =
     (case find_group c st of
        Inl e \<Rightarrow> Inl e
      | Inr (found, st1) \<Rightarrow>
          if found = - 1
          then (case go_back st1 of
                  Inl e \<Rightarrow> Inl e
                | Inr st2 \<Rightarrow> search_levels n c st2)
          else Inr (found, st1))"

text \<open>
  The body of the loop \<^verbatim>\<open>for c in children\<close> (lines 519-529); the message is the
  object at address 0.
\<close>

definition place_segment :: "segment \<Rightarrow> state \<Rightarrow> error + (int \<times> state)" where
  "place_segment c st =
     (case search_levels (length (structures st)) c st of
        Inl e \<Rightarrow> Inl e
      | Inr (found, st1) \<Rightarrow>
          if found = - 1 then Inr (found, st1\<lparr>heap := add_segment (heap st1) 0 c\<rparr>)
          else Inr (found, st1))"

fun create_groups_loop :: "segment list \<Rightarrow> state \<Rightarrow> error + state" where
  "create_groups_loop [] st = Inr st"
| "create_groups_loop (c # children) st =
     (case place_segment c st of
        Inl e \<Rightarrow> Inl e
      | Inr (found, st1) \<Rightarrow> create_groups_loop children st1)"

text \<open>
  \<^verbatim>\<open>create_groups(message, children)\<close> with the structure that
  \<^verbatim>\<open>ElementFinder.get_structure(message)\<close> returns; the result is the store it
  leaves, with the message at address 0.
\<close>

definition initial_state :: "element \<Rightarrow> structure \<Rightarrow> state" where
  "initial_state message structure =
     \<lparr>parents = [0], indexes = [- 1], structures = [structure], heap = [message]\<rparr>"

definition create_groups :: "element \<Rightarrow> structure \<Rightarrow> segment list \<Rightarrow> error + state" where
  "create_groups message structure children =
     create_groups_loop children (initial_state message structure)"

subsection \<open>An example grammar\<close>

text \<open>A message structure in the shape of an order message, used for concrete instances.\<close>

definition example_structure :: "structure" where
  "example_structure =
     [Slot ''MSH'' Segment_cls (1, 1) [],
      Slot ''PATIENT'' Group_cls (0, - 1)
        [Slot ''PID'' Segment_cls (1, 1) [],
         Slot ''NTE'' Segment_cls (0, - 1) [],
         Slot ''VISIT'' Group_cls (0, 1)
           [Slot ''PV1'' Segment_cls (1, 1) [], Slot ''PV2'' Segment_cls (0, 1) []]],
      Slot ''ORDER'' Group_cls (1, - 1)
        [Slot ''ORC'' Segment_cls (1, 1) [],
         Slot ''OBSERVATION'' Group_cls (0, - 1)
           [Slot ''OBX'' Segment_cls (1, 1) [], Slot ''NTE'' Segment_cls (0, - 1) []]]]"

definition example_message :: element where
  "example_message = \<lparr>el_name = ''OML_O33'', el_children = [], el_parent = None\<rparr>"

definition example_segment :: "string \<Rightarrow> segment" where
  "example_segment n = \<lparr>seg_name = n, seg_allow_infinite_children = False, seg_children = []\<rparr>"

subsection \<open>An example schema\<close>

text \<open>
  A small stand-in for the collaborators of \<^verbatim>\<open>hl7apy.core\<close>, used for concrete
  instances only: a few field and component names with their datatypes, level 1
  strict and level 2 quiet. A name outside the tables is refused with
  \<^verbatim>\<open>InvalidName\<close> (a datatype such as \<^verbatim>\<open>ST\<close> is not the name of a component);
  \<^verbatim>\<open>VARIES_n\<close> components are always constructible; an unnamed field is
  constructible except under strict policy, where the constructor refuses it with
  \<^verbatim>\<open>OperationNotAllowed\<close>.
\<close>

definition example_fields :: "(string \<times> string) list" where
  "example_fields =
     [(''MSH_1'', ''ST''), (''MSH_2'', ''ST''), (''MSH_3'', ''HD''),
      (''PID_1'', ''SI''), (''PID_3'', ''CX''), (''PID_5'', ''XPN'')]"

definition example_components :: "(string \<times> string) list" where
  "example_components =
     [(''HD_1'', ''IS''), (''HD_2'', ''ST''), (''CX_1'', ''ST''), (''CX_4'', ''HD''),
      (''XPN_1'', ''FN''), (''XPN_2'', ''ST'')]"

definition example_core :: core where
  "example_core =
     \<lparr>is_base_datatype = (\<lambda>datatype version.
          datatype \<in> {Some ''ST'', Some ''SI'', Some ''IS'', Some ''ID'', Some ''NM''}),
      is_strict = (\<lambda>validation_level. validation_level = Some 1),
      is_quiet = (\<lambda>validation_level. validation_level = Some 2),
      Segment = (\<lambda>name version validation_level reference.
          Inr \<lparr>seg_name = name, seg_allow_infinite_children = False, seg_children = []\<rparr>),
      Field = (\<lambda>name version validation_level reference.
          if name = None \<and> validation_level = Some 1
          then Inl (OtherError ''OperationNotAllowed'')
          else
            (case reference of
               Some (kind, datatype, r3, r4) \<Rightarrow>
                 Inr \<lparr>f_name = name, f_datatype = Some datatype, f_children = []\<rparr>
             | None \<Rightarrow>
                 (case name of
                    None \<Rightarrow> Inr \<lparr>f_name = None, f_datatype = None, f_children = []\<rparr>
                  | Some n \<Rightarrow>
                      (case map_of example_fields n of
                         None \<Rightarrow> Inl InvalidName
                       | Some datatype \<Rightarrow>
                           Inr \<lparr>f_name = Some n, f_datatype = Some datatype,
                                f_children = []\<rparr>)))),
      Component = (\<lambda>name datatype version validation_level reference.
          case name of
            None \<Rightarrow>
              Inr \<lparr>c_name = None, c_datatype = datatype,
                   c_validation_level = validation_level, c_children = []\<rparr>
          | Some n \<Rightarrow>
              if startswith n ''VARIES_''
              then Inr \<lparr>c_name = Some n, c_datatype = None,
                        c_validation_level = validation_level, c_children = []\<rparr>
              else (case map_of example_components n of
                      None \<Rightarrow> Inl InvalidName
                    | Some d \<Rightarrow>
                        Inr \<lparr>c_name = Some n, c_datatype = Some d,
                             c_validation_level = validation_level, c_children = []\<rparr>)),
      SubComponent = (\<lambda>name datatype val version validation_level.
          Inr \<lparr>sc_name = name, sc_datatype = datatype, sc_value = val\<rparr>)\<rparr>"

definition example_encoding_chars :: encoding_chars where
  "example_encoding_chars =
     \<lparr>FIELD = CHR ''|'', COMPONENT = CHR ''^'', SUBCOMPONENT = CHR ''&'',
      REPETITION = CHR ''~'', ESCAPE = CHR 0x5C, SEGMENT = CR, GROUP = CR\<rparr>"

section \<open>Properties of the separator extractor\<close>

lemma split_not_Nil [simp]: "split sep s \<noteq> []"
  by (induction s) (auto split: list.splits)

lemma split_no_sep: "w \<in> set (split sep s) \<Longrightarrow> sep \<notin> set w"
  by (induction s arbitrary: w) (auto split: list.splits if_splits)

lemma split_append: "sep \<notin> set a \<Longrightarrow> split sep (a @ sep # b) = a # split sep b"
  by (induction a) auto

lemma hd_split: "hd (split sep s) = takeWhile (\<lambda>c. c \<noteq> sep) s"
  by (induction s) (auto split: list.splits)

lemma length_split_ge2: "sep \<in> set s \<Longrightarrow> 2 \<le> length (split sep s)"
  by (induction s) (auto split: list.splits)

lemma remdups_shorter: "(length (remdups xs) < length xs) = (\<not> distinct xs)"
  by (metis distinct_remdups length_remdups_eq length_remdups_leq nat_less_le remdups_id_iff_distinct)

lemma regex_match_Some:
  "regex_match content = Some f \<longleftrightarrow> (\<exists>rest. content = ''MSH'' @ f # rest \<and> \<not> is_space f)"
  by (cases content rule: regex_match.cases) auto

lemma not_space_not_CR: "\<not> is_space f \<Longrightarrow> f \<noteq> CR"
  by (auto simp: is_space_def CR_def)

lemma msh_contains_sep:
  assumes "regex_match content = Some f"
  shows "f \<in> set (split_first CR content)"
proof -
  from assms obtain rest where c: "content = ''MSH'' @ f # rest" and f: "\<not> is_space f"
    by (auto simp: regex_match_Some)
  from f have "f \<noteq> CR" by (rule not_space_not_CR)
  then show ?thesis by (simp add: c split_first_def CR_def)
qed

lemma seps_exists:
  assumes "regex_match content = Some f"
  shows "nth_opt (split f (split_first CR content)) 1 = Some (split f (split_first CR content) ! 1)"
  using length_split_ge2 [OF msh_contains_sep [OF assms]] by (simp add: nth_opt_def)

lemma seps_no_field_sep:
  assumes "regex_match content = Some f"
  shows "f \<notin> set (split f (split_first CR content) ! 1)"
proof -
  have "split f (split_first CR content) ! 1 \<in> set (split f (split_first CR content))"
    using length_split_ge2 [OF msh_contains_sep [OF assms]] by (intro nth_mem) simp
  then show ?thesis by (rule split_no_sep)
qed

lemma get_message_info_cases:
  assumes m: "regex_match content = Some f"
  shows "get_message_info content =
     (let flds = split f (split_first CR content); seps = flds ! 1 in
      if distinct seps \<and> length seps = 4 then
        Inr (\<lparr>FIELD = f, COMPONENT = seps ! 0, SUBCOMPONENT = seps ! 3, REPETITION = seps ! 1,
              ESCAPE = seps ! 2, SEGMENT = CR, GROUP = CR\<rparr>,
             message_structure_of flds (seps ! 0), version_of flds (seps ! 0))
      else Inl InvalidEncodingChars)"
proof -
  define seps where "seps = split f (split_first CR content) ! 1"
  have n: "nth_opt (split f (split_first CR content)) 1 = Some seps"
    using seps_exists [OF m] by (simp add: seps_def)
  have g: "get_message_info content =
      (if length seps > length (remdups seps) then Inl InvalidEncodingChars
       else (case seps of
               [comp_sep, rep_sep, escape, sub_sep] \<Rightarrow>
                  Inr (\<lparr>FIELD = f, COMPONENT = comp_sep, SUBCOMPONENT = sub_sep,
                        REPETITION = rep_sep, ESCAPE = escape, SEGMENT = CR, GROUP = CR\<rparr>,
                       message_structure_of (split f (split_first CR content)) comp_sep,
                       version_of (split f (split_first CR content)) comp_sep)
             | _ \<Rightarrow> Inl InvalidEncodingChars))"
    using n unfolding get_message_info_def m Let_def
    by (simp split: list.splits)
  have "get_message_info content =
      (if distinct seps \<and> length seps = 4 then
        Inr (\<lparr>FIELD = f, COMPONENT = seps ! 0, SUBCOMPONENT = seps ! 3, REPETITION = seps ! 1,
              ESCAPE = seps ! 2, SEGMENT = CR, GROUP = CR\<rparr>,
             message_structure_of (split f (split_first CR content)) (seps ! 0),
             version_of (split f (split_first CR content)) (seps ! 0))
      else Inl InvalidEncodingChars)"
  proof (cases "distinct seps \<and> length seps = 4")
    case True
    then obtain a b c d where s: "seps = [a, b, c, d]"
      by (auto simp: length_Suc_conv numeral_eq_Suc)
    from True show ?thesis
      unfolding g by (simp add: remdups_shorter s)
  next
    case False
    then show ?thesis
      unfolding g by (auto simp: remdups_shorter split: list.splits)
  qed
  then show ?thesis
    by (simp add: Let_def seps_def)
qed

text \<open>
  Claim C5. For a text that starts with the control tag and a non-whitespace field
  separator, let \<open>seps\<close> be the second piece of the first line split on the field
  separator (the MSH.2 string that the code reads). If \<open>seps\<close> has a duplicate
  character, fewer than four or more than four characters, \<open>get_message_info\<close>
  raises \<^verbatim>\<open>InvalidEncodingChars\<close>; with exactly four distinct characters it
  succeeds and they become, in order, the component, repetition, escape and
  sub-component separators.
\<close>

theorem get_message_info_seps:
  assumes "regex_match content = Some field_sep"
    and "seps = split field_sep (split_first CR content) ! 1"
  shows "(\<not> distinct seps \<or> length seps < 4 \<or> length seps > 4 \<longrightarrow>
            get_message_info content = Inl InvalidEncodingChars) \<and>
         (distinct seps \<and> length seps = 4 \<longrightarrow>
            (\<exists>message_structure version.
               get_message_info content =
                 Inr (\<lparr>FIELD = field_sep, COMPONENT = seps ! 0, SUBCOMPONENT = seps ! 3,
                       REPETITION = seps ! 1, ESCAPE = seps ! 2, SEGMENT = CR, GROUP = CR\<rparr>,
                      message_structure, version)))"
  using assms by (auto simp: get_message_info_cases Let_def)

theorem get_message_info_seps_witness:
  "regex_match (''MSH|^~'' @ [CHR 0x5C] @ ''&|GHH'') = Some (CHR ''|'') \<and>
   split (CHR ''|'') (split_first CR (''MSH|^~'' @ [CHR 0x5C] @ ''&|GHH'')) ! 1 = ''^~'' @ [CHR 0x5C] @ ''&'' \<and>
   distinct (''^~'' @ [CHR 0x5C] @ ''&'') \<and> length (''^~'' @ [CHR 0x5C] @ ''&'') = 4 \<and>
   (\<exists>message_structure version.
      get_message_info (''MSH|^~'' @ [CHR 0x5C] @ ''&|GHH'') =
        Inr (\<lparr>FIELD = CHR ''|'', COMPONENT = CHR ''^'', SUBCOMPONENT = CHR ''&'',
              REPETITION = CHR ''~'', ESCAPE = CHR 0x5C, SEGMENT = CR, GROUP = CR\<rparr>,
             message_structure, version)) \<and>
   regex_match ''MSH|^~^&|GHH'' = Some (CHR ''|'') \<and>
   split (CHR ''|'') (split_first CR ''MSH|^~^&|GHH'') ! 1 = ''^~^&'' \<and>
   \<not> distinct ''^~^&'' \<and>
   get_message_info ''MSH|^~^&|GHH'' = Inl InvalidEncodingChars"
proof -
  let ?ok = "''MSH|^~'' @ [CHR 0x5C] @ ''&|GHH''"
  let ?sp = "''^~'' @ [CHR 0x5C] @ ''&''"
  have m: "regex_match ?ok = Some (CHR ''|'')" by (simp add: is_space_def)
  have s: "?sp = split (CHR ''|'') (split_first CR ?ok) ! 1"
    by (simp add: split_first_def CR_def)
  have d: "distinct ?sp \<and> length ?sp = 4" by simp
  have m2: "regex_match ''MSH|^~^&|GHH'' = Some (CHR ''|'')" by (simp add: is_space_def)
  have s2: "''^~^&'' = split (CHR ''|'') (split_first CR ''MSH|^~^&|GHH'') ! 1"
    by (simp add: split_first_def CR_def)
  have d2: "\<not> distinct ''^~^&''" by simp
  from get_message_info_seps [OF m s] d
  have 1: "\<exists>message_structure version.
      get_message_info ?ok =
        Inr (\<lparr>FIELD = CHR ''|'', COMPONENT = CHR ''^'', SUBCOMPONENT = CHR ''&'',
              REPETITION = CHR ''~'', ESCAPE = CHR 0x5C, SEGMENT = CR, GROUP = CR\<rparr>,
             message_structure, version)"
    by simp
  from get_message_info_seps [OF m2 s2] d2
  have 2: "get_message_info ''MSH|^~^&|GHH'' = Inl InvalidEncodingChars"
    by blast
  from 1 2 m s [symmetric] d m2 s2 [symmetric] d2 show ?thesis by blast
qed

lemma distinct_five:
  assumes ok: "get_message_info content = Inr (ec, ms, v)"
  shows "distinct [FIELD ec, COMPONENT ec, REPETITION ec, ESCAPE ec, SUBCOMPONENT ec]"
proof -
  from ok obtain f where m: "regex_match content = Some f"
    by (auto simp: get_message_info_def split: option.splits)
  define seps where "seps = split f (split_first CR content) ! 1"
  from ok have d: "distinct seps" and l: "length seps = 4"
    and ec: "ec = \<lparr>FIELD = f, COMPONENT = seps ! 0, SUBCOMPONENT = seps ! 3, REPETITION = seps ! 1,
              ESCAPE = seps ! 2, SEGMENT = CR, GROUP = CR\<rparr>"
    by (auto simp: get_message_info_cases [OF m] Let_def seps_def split: if_splits)
  from l obtain a b c d where s: "seps = [a, b, c, d]"
    by (auto simp: length_Suc_conv numeral_eq_Suc)
  have "f \<notin> set seps"
    unfolding seps_def by (rule seps_no_field_sep [OF m])
  with d show ?thesis
    by (simp add: ec s)
qed

lemma seps_prefix:
  assumes f: "\<not> is_space f" and nm: "f \<notin> set ''MSH''"
  shows "split f (split_first CR (''MSH'' @ f # rest)) ! 1
           = takeWhile (\<lambda>c. c \<noteq> f) (takeWhile (\<lambda>c. c \<noteq> CR) rest)"
proof -
  define l where "l = takeWhile (\<lambda>c. c \<noteq> CR) rest"
  from f have "f \<noteq> CR" by (rule not_space_not_CR)
  then have "split_first CR (''MSH'' @ f # rest) = ''MSH'' @ f # l"
    by (simp add: split_first_def CR_def l_def)
  moreover have "split f (''MSH'' @ f # l) = ''MSH'' # split f l"
    using nm by (intro split_append)
  moreover have "split f l ! 0 = takeWhile (\<lambda>c. c \<noteq> f) l"
    using hd_split [of f l] by (simp add: hd_conv_nth)
  ultimately show ?thesis
    by (simp add: l_def)
qed

lemma seps_short:
  assumes f: "\<not> is_space f" and nm: "f \<in> set ''MSH''"
  shows "length (split f (split_first CR (''MSH'' @ f # rest)) ! 1) < 4"
proof -
  define l where "l = takeWhile (\<lambda>c. c \<noteq> CR) rest"
  from f have ncr: "f \<noteq> CR" by (rule not_space_not_CR)
  then have sf: "split_first CR (''MSH'' @ f # rest) = CHR ''M'' # CHR ''S'' # CHR ''H'' # f # l"
    by (simp add: split_first_def CR_def l_def)
  from nm consider "f = CHR ''M''" | "f = CHR ''S''" | "f = CHR ''H''" by auto
  then show ?thesis
  proof cases
    case 1
    show ?thesis unfolding sf unfolding 1 by simp
  next
    case 2
    show ?thesis unfolding sf unfolding 2 by simp
  next
    case 3
    show ?thesis unfolding sf unfolding 3 by simp
  qed
qed

lemma takeWhile_take_prefix:
  "length (takeWhile P xs) = n \<Longrightarrow> take n xs = takeWhile P xs"
  by (metis append_eq_conv_conj takeWhile_dropWhile_id)

lemma dup_fails:
  assumes f: "\<not> is_space f" and nd: "\<not> distinct (f # take 4 rest)"
  shows "get_message_info (''MSH'' @ f # rest) = Inl InvalidEncodingChars"
proof -
  let ?content = "''MSH'' @ f # rest"
  let ?seps = "split f (split_first CR ?content) ! 1"
  from f have m: "regex_match ?content = Some f" by simp
  have "\<not> (distinct ?seps \<and> length ?seps = 4)"
  proof
    assume a: "distinct ?seps \<and> length ?seps = 4"
    have nm: "f \<notin> set ''MSH''"
      using seps_short [OF f, of rest] a by auto
    have s: "?seps = takeWhile (\<lambda>c. c \<noteq> f) (takeWhile (\<lambda>c. c \<noteq> CR) rest)"
      by (rule seps_prefix [OF f nm])
    let ?l = "takeWhile (\<lambda>c. c \<noteq> CR) rest"
    from a s have "take 4 ?l = ?seps" by (simp add: takeWhile_take_prefix)
    moreover from a s have "4 \<le> length ?l" 
      by (metis length_takeWhile_le)
    then have "take 4 rest = take 4 ?l" 
      by (metis append_eq_conv_conj takeWhile_dropWhile_id take_append length_take min.absorb2 take_all_iff diff_is_0_eq' take0 append_Nil2 take_take min.idem)
    ultimately have "take 4 rest = ?seps" by simp
    with a seps_no_field_sep [OF m] nd show False by simp
  qed
  then show ?thesis unfolding get_message_info_cases [OF m] Let_def by simp
qed

text \<open>
  Claim C3. In every successful result of \<open>get_message_info\<close> the field
  separator and the component, repetition, escape and sub-component characters are
  pairwise distinct; and a text whose field separator and the four characters after
  it are not pairwise distinct makes \<open>get_message_info\<close> raise
  \<^verbatim>\<open>InvalidEncodingChars\<close>, also when the duplicate is the field separator
  itself.
\<close>

theorem encoding_chars_pairwise_distinct:
  "(\<forall>ec ms v. get_message_info content = Inr (ec, ms, v) \<longrightarrow>
       distinct [FIELD ec, COMPONENT ec, REPETITION ec, ESCAPE ec, SUBCOMPONENT ec]) \<and>
   (\<forall>f rest. content = ''MSH'' @ f # rest \<and> \<not> is_space f \<and> \<not> distinct (f # take 4 rest) \<longrightarrow>
       get_message_info content = Inl InvalidEncodingChars)"
  using distinct_five dup_fails by blast

theorem encoding_chars_pairwise_distinct_witness:
  "get_message_info (''MSH|^~'' @ [CHR 0x5C] @ ''&|GHH'') =
     Inr (\<lparr>FIELD = CHR ''|'', COMPONENT = CHR ''^'', SUBCOMPONENT = CHR ''&'',
           REPETITION = CHR ''~'', ESCAPE = CHR 0x5C, SEGMENT = CR, GROUP = CR\<rparr>, None, None) \<and>
   distinct [CHR ''|'', CHR ''^'', CHR ''~'', CHR 0x5C, CHR ''&''] \<and>
   \<not> is_space (CHR ''|'') \<and> \<not> distinct (CHR ''|'' # take 4 ''^~|&|GHH'') \<and>
   get_message_info (''MSH'' @ CHR ''|'' # ''^~|&|GHH'') = Inl InvalidEncodingChars"
proof -
  let ?ok = "''MSH|^~'' @ [CHR 0x5C] @ ''&|GHH''"
  let ?ec = "\<lparr>FIELD = CHR ''|'', COMPONENT = CHR ''^'', SUBCOMPONENT = CHR ''&'',
           REPETITION = CHR ''~'', ESCAPE = CHR 0x5C, SEGMENT = CR, GROUP = CR\<rparr>"
  have ok: "get_message_info ?ok = Inr (?ec, None, None)"
    by (simp add: get_message_info_def is_space_def split_first_def CR_def nth_opt_def
                  message_structure_of_def version_of_def)
  have sp: "\<not> is_space (CHR ''|'')" by (simp add: is_space_def)
  have nd: "\<not> distinct (CHR ''|'' # take 4 ''^~|&|GHH'')" by simp
  from encoding_chars_pairwise_distinct [of ?ok] ok
  have "distinct [FIELD ?ec, COMPONENT ?ec, REPETITION ?ec, ESCAPE ?ec, SUBCOMPONENT ?ec]"
    by blast
  moreover from encoding_chars_pairwise_distinct [of "''MSH'' @ CHR ''|'' # ''^~|&|GHH''"] sp nd
  have "get_message_info (''MSH'' @ CHR ''|'' # ''^~|&|GHH'') = Inl InvalidEncodingChars"
    by blast
  ultimately show ?thesis using ok sp nd by simp
qed

section \<open>Properties of the structure assigner\<close>

definition push_group :: "state \<Rightarrow> slot \<Rightarrow> state" where
  "push_group st g =
     st\<lparr>heap := heap st @ [new_group (slot_name g)],
        structures := structures st @ [slot_structure g],
        parents := parents st @ [length (heap st)],
        indexes := indexes st @ [- 1]\<rparr>"

definition attach_group :: "slot list \<Rightarrow> slot \<Rightarrow> nat \<Rightarrow> state \<Rightarrow> error + (int \<times> state)" where
  "attach_group str g grp st3 =
     (case index_of grp (parents st3) of
        None \<Rightarrow> Inl ValueError
      | Some i \<Rightarrow>
          (case py_get (parents st3) (int i - 1) of
             None \<Rightarrow> Inl IndexError
           | Some parent \<Rightarrow>
               (case index_of (slot_name g) (structure_keys str) of
                  None \<Rightarrow> Inl ValueError
                | Some search_index \<Rightarrow>
                    (case py_set (indexes st3) (int i - 1) (int search_index) of
                       None \<Rightarrow> Inl IndexError
                     | Some indexes' \<Rightarrow>
                         Inr (int search_index,
                              st3\<lparr>heap := set_parent (heap st3) grp parent,
                                  indexes := indexes'\<rparr>)))))"

lemma find_group_groups_Cons:
  "find_group_groups segment str (g # groups) st =
     (case find_group segment (push_group st g) of
        Inl e \<Rightarrow> Inl e
      | Inr (found_index, st3) \<Rightarrow>
          if found_index > - 1 then attach_group str g (length (heap st)) st3
          else (case go_back st3 of
                  Inl e \<Rightarrow> Inl e
                | Inr st4 \<Rightarrow> find_group_groups segment str groups st4))"
  unfolding find_group_groups.simps(2) [of segment str g groups st] push_group_def attach_group_def Let_def
  by (simp split: sum.splits option.splits prod.splits)

declare find_group_groups.simps(2) [simp del]

lemma find_group_cases:
  "find_group segment st =
     (if indexes st = [] \<or> structures st = [] then Inl IndexError
      else case index_of (seg_name segment) (structure_keys (last (structures st))) of
             None \<Rightarrow> find_group_groups segment (last (structures st))
                       (structure_groups (last (structures st))) st
           | Some k \<Rightarrow>
               if int k \<le> last (indexes st)
                  \<and> snd (slot_repetitions (last (structures st) ! k)) = 1
               then (case go_back st of Inl e \<Rightarrow> Inl e | Inr st1 \<Rightarrow> find_group segment st1)
               else if parents st = [] then Inl IndexError
               else Inr (int k, st\<lparr>indexes := butlast (indexes st) @ [int k],
                                  heap := add_segment (heap st) (last (parents st)) segment\<rparr>))"
  unfolding find_group.simps(1) [of segment st] Let_def
  by (simp split: option.splits)

lemma find_group_induct [case_names find groups_Nil groups_Cons]:
  assumes find: "\<And>segment st.
      \<lbrakk>\<lbrakk>indexes st \<noteq> []; structures st \<noteq> [];
         index_of (seg_name segment) (structure_keys (last (structures st))) = None\<rbrakk>
        \<Longrightarrow> Q segment (last (structures st)) (structure_groups (last (structures st))) st;
       \<And>k st1.
         \<lbrakk>indexes st \<noteq> []; structures st \<noteq> [];
          index_of (seg_name segment) (structure_keys (last (structures st))) = Some k;
          int k \<le> last (indexes st);
          snd (slot_repetitions (last (structures st) ! k)) = 1;
          go_back st = Inr st1\<rbrakk>
         \<Longrightarrow> P segment st1\<rbrakk>
      \<Longrightarrow> P segment st"
    and groups_Nil: "\<And>segment str st. Q segment str [] st"
    and groups_Cons: "\<And>segment str g groups st.
      \<lbrakk>P segment (push_group st g);
       \<And>r st3 st4.
         \<lbrakk>find_group segment (push_group st g) = Inr (r, st3); \<not> - 1 < r;
          go_back st3 = Inr st4\<rbrakk>
         \<Longrightarrow> Q segment str groups st4\<rbrakk>
      \<Longrightarrow> Q segment str (g # groups) st"
  shows "P segment st" and "Q segment str groups st"
proof (induction segment st and segment str groups st
       rule: find_group_find_group_groups.induct)
  case (1 segment st)
  show ?case
    by (rule find) (use 1 in auto)
next
  case (2 segment str st)
  show ?case by (rule groups_Nil)
next
  case (3 segment str g groups st)
  show ?case
  proof (rule groups_Cons)
    show "P segment (push_group st g)"
      using 3(1) by (simp add: push_group_def)
  next
    fix r st3 st4
    assume "find_group segment (push_group st g) = Inr (r, st3)" "\<not> - 1 < r"
      "go_back st3 = Inr st4"
    then show "Q segment str groups st4"
      using 3(2) by (simp add: push_group_def)
  qed
qed


lemma go_back_length:
  "go_back st = Inr st' \<Longrightarrow>
     Suc (length (structures st')) = length (structures st) \<and> heap st' = heap st"
  by (auto simp: go_back_def split: if_splits)

lemma attach_group_result: "attach_group str g grp st3 = Inr (r, st') \<Longrightarrow> 0 \<le> r"
  by (auto simp: attach_group_def split: option.splits)

lemma find_group_result_ge:
  "find_group segment st = Inr (r, st') \<Longrightarrow> - 1 \<le> r"
  "find_group_groups segment str groups st = Inr (r, st') \<Longrightarrow> - 1 \<le> r"
proof (induction segment st and segment str groups st arbitrary: r st' and r st'
       rule: find_group_induct)
  case (find segment st)
  from find.prems show ?case
    unfolding find_group_cases [of segment st]
    by (auto split: if_splits option.splits sum.splits intro: find.IH)
next
  case (groups_Nil segment str st)
  then show ?case by simp
next
  case (groups_Cons segment str g groups st)
  from groups_Cons.prems show ?case
    unfolding find_group_groups_Cons
    by (auto split: if_splits sum.splits prod.splits
             dest: attach_group_result intro: groups_Cons.IH(2))
qed

lemma find_group_fail_length:
  "find_group segment st = Inr (- 1, st') \<Longrightarrow>
     length (structures st') \<le> length (structures st)"
  "find_group_groups segment str groups st = Inr (- 1, st') \<Longrightarrow>
     length (structures st') \<le> length (structures st)"
proof (induction segment st and segment str groups st arbitrary: st' and st'
       rule: find_group_induct)
  case (find segment st)
  show ?case
  proof (cases "index_of (seg_name segment) (structure_keys (last (structures st)))")
    case None
    with find.prems find.IH(1) show ?thesis
      unfolding find_group_cases [of segment st] by (auto split: if_splits)
  next
    case (Some k)
    show ?thesis
    proof (cases "int k \<le> last (indexes st)
                  \<and> snd (slot_repetitions (last (structures st) ! k)) = 1")
      case True
      with Some find.prems obtain st1 where ne: "indexes st \<noteq> []" "structures st \<noteq> []"
        and gb: "go_back st = Inr st1" and r: "find_group segment st1 = Inr (- 1, st')"
        unfolding find_group_cases [of segment st] by (auto split: if_splits sum.splits)
      from find.IH(2) [OF ne Some _ _ gb r] True
      have "length (structures st') \<le> length (structures st1)" by simp
      with go_back_length [OF gb] show ?thesis by simp
    next
      case False
      with Some find.prems show ?thesis
        unfolding find_group_cases [of segment st] by (auto split: if_splits)
    qed
  qed
next
  case (groups_Nil segment str st)
  then show ?case by simp
next
  case (groups_Cons segment str g groups st)
  from groups_Cons.prems obtain r st3 where
    f: "find_group segment (push_group st g) = Inr (r, st3)"
    unfolding find_group_groups_Cons by (auto split: sum.splits)
  show ?case
  proof (cases "- 1 < r")
    case True
    with f groups_Cons.prems have "attach_group str g (length (heap st)) st3 = Inr (- 1, st')"
      unfolding find_group_groups_Cons by simp
    from attach_group_result [OF this] show ?thesis by simp
  next
    case False
    with find_group_result_ge(1) [OF f] have r: "r = - 1" by simp
    from False f groups_Cons.prems obtain st4 where gb: "go_back st3 = Inr st4"
      and rest: "find_group_groups segment str groups st4 = Inr (- 1, st')"
      unfolding find_group_groups_Cons by (auto split: sum.splits)
    from groups_Cons.IH(1) [OF f [unfolded r]]
    have "length (structures st3) \<le> Suc (length (structures st))"
      by (simp add: push_group_def)
    moreover from groups_Cons.IH(2) [OF f False gb rest]
    have "length (structures st') \<le> length (structures st4)" .
    ultimately show ?thesis using go_back_length [OF gb] by simp
  qed
qed

lemma search_levels_fail_empty:
  "search_levels n c st = Inr (- 1, st') \<Longrightarrow> length (structures st) \<le> n \<Longrightarrow>
     structures st' = []"
proof (induction n arbitrary: st)
  case 0
  then show ?case by simp
next
  case (Suc n)
  from Suc.prems(1) obtain r st1 where f: "find_group c st = Inr (r, st1)"
    by (auto split: sum.splits)
  show ?case
  proof (cases "r = - 1")
    case True
    with f Suc.prems(1) obtain st2 where gb: "go_back st1 = Inr st2"
      and rest: "search_levels n c st2 = Inr (- 1, st')"
      by (auto split: sum.splits)
    from find_group_fail_length(1) [OF f [unfolded True]] go_back_length [OF gb] Suc.prems(2)
    have "length (structures st2) \<le> n" by simp
    from Suc.IH [OF rest this] show ?thesis .
  next
    case False
    with f Suc.prems(1) show ?thesis by simp
  qed
qed

lemma place_segment_unplaced_empty:
  assumes "place_segment c st = Inr (- 1, st')"
  shows "structures st' = []"
proof -
  from assms obtain st1 where
    s: "search_levels (length (structures st)) c st = Inr (- 1, st1)"
    and st': "st' = st1\<lparr>heap := add_segment (heap st1) 0 c\<rparr>"
    by (auto simp: place_segment_def split: sum.splits if_splits)
  from search_levels_fail_empty [OF s] st' show ?thesis by simp
qed

text \<open>The segments attached, in order, to the message at address 0.\<close>

definition add_to_message :: "segment list \<Rightarrow> store \<Rightarrow> store" where
  "add_to_message cs h = foldl (\<lambda>h c. add_segment h 0 c) h cs"

lemma create_groups_loop_empty_stack:
  "structures st = [] \<Longrightarrow>
     create_groups_loop cs st = Inr (st\<lparr>heap := add_to_message cs (heap st)\<rparr>)"
proof (induction cs arbitrary: st)
  case Nil
  then show ?case by (simp add: add_to_message_def)
next
  case (Cons c cs)
  from Cons.prems have p: "place_segment c st = Inr (- 1, st\<lparr>heap := add_segment (heap st) 0 c\<rparr>)"
    by (simp add: place_segment_def)
  have "create_groups_loop cs (st\<lparr>heap := add_segment (heap st) 0 c\<rparr>) =
          Inr (st\<lparr>heap := add_segment (heap st) 0 c\<rparr>
                 \<lparr>heap := add_to_message cs (heap (st\<lparr>heap := add_segment (heap st) 0 c\<rparr>))\<rparr>)"
    by (rule Cons.IH) (use Cons.prems in simp)
  with p show ?case by (simp add: add_to_message_def)
qed

lemma add_to_message_children:
  "h \<noteq> [] \<Longrightarrow>
     add_to_message cs h =
       h[0 := (h ! 0)\<lparr>el_children := el_children (h ! 0) @ map SegmentChild cs\<rparr>]"
proof (induction cs arbitrary: h)
  case Nil
  then show ?case by (simp add: add_to_message_def)
next
  case (Cons c cs)
  from Cons.prems have ne: "add_segment h 0 c \<noteq> []" by (simp add: add_segment_def)
  have "add_to_message (c # cs) h = add_to_message cs (add_segment h 0 c)"
    by (simp add: add_to_message_def)
  also have "\<dots> = (add_segment h 0 c)[0 := (add_segment h 0 c ! 0)
        \<lparr>el_children := el_children (add_segment h 0 c ! 0) @ map SegmentChild cs\<rparr>]"
    by (rule Cons.IH [OF ne])
  also have "\<dots> = h[0 := (h ! 0)\<lparr>el_children := el_children (h ! 0) @ map SegmentChild (c # cs)\<rparr>]"
    using Cons.prems by (simp add: add_segment_def)
  finally show ?case .
qed

lemma go_back_single:
  "go_back \<lparr>parents = [p], indexes = [i], structures = [s], heap = h\<rparr>
     = Inr \<lparr>parents = [], indexes = [], structures = [], heap = h\<rparr>"
  by (simp add: go_back_def)

lemma find_group_empty: "indexes st = [] \<Longrightarrow> find_group segment st = Inl IndexError"
  by (simp add: find_group.simps)

lemma find_group_retry:
  assumes "indexes st \<noteq> []" "structures st \<noteq> []"
    and "index_of (seg_name segment) (structure_keys (last (structures st))) = Some k"
    and "int k \<le> last (indexes st)"
    and "snd (slot_repetitions (last (structures st) ! k)) = 1"
  shows "find_group segment st =
           (case go_back st of Inl e \<Rightarrow> Inl e | Inr st1 \<Rightarrow> find_group segment st1)"
  using assms by (subst find_group.simps) (simp add: Let_def)

lemma find_group_direct:
  assumes "indexes st \<noteq> []" "structures st \<noteq> []" "parents st \<noteq> []"
    and "index_of (seg_name segment) (structure_keys (last (structures st))) = Some k"
    and "\<not> (int k \<le> last (indexes st) \<and> snd (slot_repetitions (last (structures st) ! k)) = 1)"
  shows "find_group segment st =
           Inr (int k, st\<lparr>indexes := butlast (indexes st) @ [int k],
                          heap := add_segment (heap st) (last (parents st)) segment\<rparr>)"
  using assms by (subst find_group.simps) (auto simp add: Let_def)

lemma index_of_append_fresh:
  "x \<notin> set xs \<Longrightarrow> index_of x (xs @ x # ys) = Some (length xs)"
  by (induction xs) auto

lemma index_of_Some_lt: "index_of x xs = Some i \<Longrightarrow> i < length xs \<and> xs ! i = x"
  by (induction xs arbitrary: i) (auto split: if_splits)

lemma new_sibling_group:
  assumes ps: "parents st = ps @ [p, g1]"
    and "is": "indexes st = is @ [ip, ig]"
    and ss: "structures st = ss @ [sp, sg]"
    and len: "length is = length ps"
    and bound: "\<forall>x \<in> set (ps @ [p]). x < length (heap st)"
    and k: "index_of (seg_name s) (structure_keys sg) = Some k"
    and again: "int k \<le> ig"
    and one: "snd (slot_repetitions (sg ! k)) = 1"
    and nodirect: "index_of (seg_name s) (structure_keys sp) = None"
    and first: "structure_groups sp = gslot # others"
    and sg: "slot_structure gslot = sg"
    and j: "index_of (slot_name gslot) (structure_keys sp) = Some j"
  shows "find_group s st =
           Inr (int j,
                \<lparr>parents = ps @ [p, length (heap st)],
                 indexes = is @ [int j, int k],
                 structures = ss @ [sp, sg],
                 heap = (heap st @ [\<lparr>el_name = slot_name gslot, el_children = [SegmentChild s],
                                     el_parent = Some p\<rparr>])
                          [p := (heap st ! p)\<lparr>el_children :=
                                   el_children (heap st ! p) @ [GroupChild (length (heap st))]\<rparr>]\<rparr>)"
proof -
  let ?h = "heap st"
  let ?st1 = "\<lparr>parents = ps @ [p], indexes = is @ [ip], structures = ss @ [sp], heap = ?h\<rparr>"
  let ?st2 = "\<lparr>parents = ps @ [p, length ?h], indexes = is @ [ip, - 1],
               structures = ss @ [sp, sg], heap = ?h @ [new_group (slot_name gslot)]\<rparr>"
  let ?st3 = "\<lparr>parents = ps @ [p, length ?h], indexes = is @ [ip, int k],
               structures = ss @ [sp, sg],
               heap = add_segment (?h @ [new_group (slot_name gslot)]) (length ?h) s\<rparr>"
  have gb: "go_back st = Inr ?st1"
    by (simp add: go_back_def ps "is" ss butlast_append)
  have retry: "find_group s st = find_group s ?st1"
    using k again one
    by (subst find_group_retry [where k = k]) (simp_all add: ps "is" ss gb)
  have push: "push_group ?st1 gslot = ?st2"
    by (simp add: push_group_def sg)
  have inner: "find_group s ?st2 = Inr (int k, ?st3)"
    using k by (subst find_group_direct [where k = k]) (simp_all add: butlast_append)
  have fresh: "length ?h \<notin> set (ps @ [p])"
    using bound by auto
  have idx: "index_of (length ?h) (ps @ [p, length ?h]) = Some (Suc (length ps))"
    using index_of_append_fresh [OF fresh, of "[]"] by simp
  have p: "p < length ?h" using bound by simp
  have attach: "attach_group sp gslot (length ?h) ?st3 =
      Inr (int j,
           \<lparr>parents = ps @ [p, length ?h], indexes = is @ [int j, int k],
            structures = ss @ [sp, sg],
            heap = set_parent (add_segment (?h @ [new_group (slot_name gslot)]) (length ?h) s)
                     (length ?h) p\<rparr>)"
    using len by (simp add: attach_group_def idx py_get_def py_set_def py_index_def j
                            nth_append list_update_append)
  have heap_eq: "set_parent (add_segment (?h @ [new_group (slot_name gslot)]) (length ?h) s)
                     (length ?h) p
       = (?h @ [\<lparr>el_name = slot_name gslot, el_children = [SegmentChild s],
                   el_parent = Some p\<rparr>])
            [p := (?h ! p)\<lparr>el_children := el_children (?h ! p) @ [GroupChild (length ?h)]\<rparr>]"
    using p by (simp add: set_parent_def add_segment_def new_group_def Let_def nth_append
                          list_update_append)
  have "find_group s ?st1 = find_group_groups s sp (gslot # others) ?st1"
    using nodirect first by (subst find_group_cases) simp
  also have "\<dots> = attach_group sp gslot (length ?h) ?st3"
    by (simp add: find_group_groups_Cons push inner)
  finally show ?thesis
    by (simp add: retry attach heap_eq)
qed


text \<open>
  What the pop leads to is decided by the search one level up. When the parent's
  schema does not hold the name and its first group slot is the group that was
  left, the segment goes to a new node of that slot (\<open>new_sibling_group\<close>). The
  code does not ask for that: in the grammar below the parent holds the name \<open>X\<close>
  itself, in a slot after the group \<open>G\<close>.
\<close>

definition shadowed_structure :: "structure" where
  "shadowed_structure =
     [Slot ''MSH'' Segment_cls (1, 1) [],
      Slot ''G'' Group_cls (0, - 1)
        [Slot ''Y'' Segment_cls (1, 1) [], Slot ''X'' Segment_cls (0, 1) []],
      Slot ''X'' Segment_cls (0, - 1) []]"

text \<open>
  Claim C1, at the segments \<open>MSH\<close>, \<open>Y\<close>, \<open>X\<close>, \<open>X\<close> of this grammar. After
  \<open>MSH\<close>, \<open>Y\<close>, \<open>X\<close> the innermost frame is that of the repeatable group \<open>G\<close>,
  matched last at the slot of \<open>X\<close> (index 1, maximum 1). The second \<open>X\<close> pops that
  frame (lines 575-579); one level up the name is found at index 2, above the last
  matched index 1, and the segment is added to the message itself (lines 580-582).
  No second node of \<open>G\<close> is created: the store holds the message and one group.
\<close>

theorem second_occurrence_lands_on_message:
  "create_groups example_message shadowed_structure
      (map example_segment [''MSH'', ''Y'', ''X'']) =
     Inr \<lparr>parents = [0, 1], indexes = [1, 1],
          structures = [shadowed_structure, slot_structure (shadowed_structure ! 1)],
          heap = [\<lparr>el_name = ''OML_O33'',
                   el_children = [SegmentChild (example_segment ''MSH''), GroupChild 1],
                   el_parent = None\<rparr>,
                  \<lparr>el_name = ''G'',
                   el_children = [SegmentChild (example_segment ''Y''),
                                  SegmentChild (example_segment ''X'')],
                   el_parent = Some 0\<rparr>]\<rparr> \<and>
   slot_repetitions (shadowed_structure ! 1) = (0, - 1) \<and>
   index_of ''X'' (structure_keys (slot_structure (shadowed_structure ! 1))) = Some 1 \<and>
   slot_repetitions (slot_structure (shadowed_structure ! 1) ! 1) = (0, 1) \<and>
   create_groups example_message shadowed_structure
      (map example_segment [''MSH'', ''Y'', ''X'', ''X'']) =
     Inr \<lparr>parents = [0], indexes = [2], structures = [shadowed_structure],
          heap = [\<lparr>el_name = ''OML_O33'',
                   el_children = [SegmentChild (example_segment ''MSH''), GroupChild 1,
                                  SegmentChild (example_segment ''X'')],
                   el_parent = None\<rparr>,
                  \<lparr>el_name = ''G'',
                   el_children = [SegmentChild (example_segment ''Y''),
                                  SegmentChild (example_segment ''X'')],
                   el_parent = Some 0\<rparr>]\<rparr>"
proof -
  have 1: "create_groups example_message shadowed_structure
      (map example_segment [''MSH'', ''Y'', ''X'']) =
     Inr \<lparr>parents = [0, 1], indexes = [1, 1],
          structures = [shadowed_structure, slot_structure (shadowed_structure ! 1)],
          heap = [\<lparr>el_name = ''OML_O33'',
                   el_children = [SegmentChild (example_segment ''MSH''), GroupChild 1],
                   el_parent = None\<rparr>,
                  \<lparr>el_name = ''G'',
                   el_children = [SegmentChild (example_segment ''Y''),
                                  SegmentChild (example_segment ''X'')],
                   el_parent = Some 0\<rparr>]\<rparr>"
    by code_simp
  have 2: "slot_repetitions (shadowed_structure ! 1) = (0, - 1)"
    and 3: "index_of ''X'' (structure_keys (slot_structure (shadowed_structure ! 1))) = Some 1"
    and 4: "slot_repetitions (slot_structure (shadowed_structure ! 1) ! 1) = (0, 1)"
    by (simp_all add: shadowed_structure_def structure_keys_def)
  have 5: "create_groups example_message shadowed_structure
      (map example_segment [''MSH'', ''Y'', ''X'', ''X'']) =
     Inr \<lparr>parents = [0], indexes = [2], structures = [shadowed_structure],
          heap = [\<lparr>el_name = ''OML_O33'',
                   el_children = [SegmentChild (example_segment ''MSH''), GroupChild 1,
                                  SegmentChild (example_segment ''X'')],
                   el_parent = None\<rparr>,
                  \<lparr>el_name = ''G'',
                   el_children = [SegmentChild (example_segment ''Y''),
                                  SegmentChild (example_segment ''X'')],
                   el_parent = Some 0\<rparr>]\<rparr>"
    by code_simp
  from 1 2 3 4 5 show ?thesis by blast
qed


lemma add_to_message_nth:
  "add_to_message cs h =
     h[0 := (h ! 0)\<lparr>el_children := el_children (h ! 0) @ map SegmentChild cs\<rparr>]"
proof (cases "h = []")
  case True
  have "add_to_message cs [] = []"
    by (induction cs) (simp_all add: add_to_message_def add_segment_def)
  with True show ?thesis by simp
next
  case False
  then show ?thesis by (rule add_to_message_children)
qed

lemma create_groups_loop_append:
  "create_groups_loop (xs @ ys) st =
     (case create_groups_loop xs st of
        Inl e \<Rightarrow> Inl e
      | Inr st' \<Rightarrow> create_groups_loop ys st')"
  by (induction xs arbitrary: st) (auto split: sum.splits)

lemma create_groups_after_empty_stack:
  assumes "create_groups message str pre = Inr st" and "structures st = []"
  shows "create_groups message str (pre @ rest) =
           Inr (st\<lparr>heap := (heap st)[0 := (heap st ! 0)
                  \<lparr>el_children := el_children (heap st ! 0) @ map SegmentChild rest\<rparr>]\<rparr>)"
  using assms
  by (simp add: create_groups_def create_groups_loop_append create_groups_loop_empty_stack
                add_to_message_nth)

lemma create_groups_snoc:
  assumes "create_groups message str pre = Inr st0" and "place_segment c st0 = Inr (r, st1)"
  shows "create_groups message str (pre @ [c]) = Inr st1"
  using assms by (simp add: create_groups_def create_groups_loop_append)

text \<open>
  Claim C9. When \<open>create_groups\<close> has worked through the segments \<open>pre\<close> and the
  next segment \<open>c\<close> ends unplaced (every level that was left failed and was
  popped, the loop ends with \<open>- 1\<close> and \<open>c\<close> is added to the message), the stack
  of structures is empty; and once \<open>create_groups\<close> has reached an empty stack,
  whatever segments follow are appended, in order, to the children of the message
  at address 0: the stacks stay empty, no group is searched or created, and no
  error is raised.
\<close>

theorem unplaced_segment_empties_stack:
  "(create_groups message str pre = Inr st0 \<and> place_segment c st0 = Inr (- 1, st1) \<longrightarrow>
      structures st1 = [] \<and>
      create_groups message str (pre @ [c]) = Inr st1 \<and>
      create_groups message str (pre @ c # rest) =
        Inr (st1\<lparr>heap := (heap st1)[0 := (heap st1 ! 0)
               \<lparr>el_children := el_children (heap st1 ! 0) @ map SegmentChild rest\<rparr>]\<rparr>)) \<and>
   (create_groups message str pre = Inr st1 \<and> structures st1 = [] \<longrightarrow>
      create_groups message str (pre @ rest) =
        Inr (st1\<lparr>heap := (heap st1)[0 := (heap st1 ! 0)
               \<lparr>el_children := el_children (heap st1 ! 0) @ map SegmentChild rest\<rparr>]\<rparr>))"
proof (intro conjI impI)
  assume a: "create_groups message str pre = Inr st0 \<and> place_segment c st0 = Inr (- 1, st1)"
  then have p: "place_segment c st0 = Inr (- 1, st1)" by simp
  from p show e: "structures st1 = []" by (rule place_segment_unplaced_empty)
  from a show s: "create_groups message str (pre @ [c]) = Inr st1"
    by (intro create_groups_snoc [where r = "- 1" and ?st0.0 = st0]) simp_all
  from create_groups_after_empty_stack [OF s e, of rest]
  show "create_groups message str (pre @ c # rest) =
        Inr (st1\<lparr>heap := (heap st1)[0 := (heap st1 ! 0)
               \<lparr>el_children := el_children (heap st1 ! 0) @ map SegmentChild rest\<rparr>]\<rparr>)"
    by simp
next
  assume "create_groups message str pre = Inr st1 \<and> structures st1 = []"
  then show "create_groups message str (pre @ rest) =
        Inr (st1\<lparr>heap := (heap st1)[0 := (heap st1 ! 0)
               \<lparr>el_children := el_children (heap st1 ! 0) @ map SegmentChild rest\<rparr>]\<rparr>)"
    by (intro create_groups_after_empty_stack) simp_all
qed

definition placed_MSH :: state where
  "placed_MSH =
     \<lparr>parents = [0], indexes = [0], structures = [example_structure],
      heap = [\<lparr>el_name = ''OML_O33'', el_children = [SegmentChild (example_segment ''MSH'')],
               el_parent = None\<rparr>]\<rparr>"

definition unplaced_state :: state where
  "unplaced_state =
     \<lparr>parents = [], indexes = [], structures = [],
      heap = [\<lparr>el_name = ''OML_O33'',
               el_children = [SegmentChild (example_segment ''MSH''),
                              SegmentChild (example_segment ''ZZZ'')],
               el_parent = None\<rparr>,
              \<lparr>el_name = ''PATIENT'', el_children = [], el_parent = None\<rparr>,
              \<lparr>el_name = ''VISIT'', el_children = [], el_parent = None\<rparr>,
              \<lparr>el_name = ''ORDER'', el_children = [], el_parent = None\<rparr>,
              \<lparr>el_name = ''OBSERVATION'', el_children = [], el_parent = None\<rparr>]\<rparr>"

theorem unplaced_segment_empties_stack_witness:
  "create_groups example_message example_structure [example_segment ''MSH''] = Inr placed_MSH \<and>
   place_segment (example_segment ''ZZZ'') placed_MSH = Inr (- 1, unplaced_state) \<and>
   structures unplaced_state = [] \<and>
   create_groups example_message example_structure
      [example_segment ''MSH'', example_segment ''ZZZ''] = Inr unplaced_state \<and>
   index_of ''PID'' (structure_keys (slot_structure (example_structure ! 1))) = Some 0 \<and>
   index_of ''ORC'' (structure_keys (slot_structure (example_structure ! 2))) = Some 0 \<and>
   create_groups example_message example_structure
      [example_segment ''MSH'', example_segment ''ZZZ'', example_segment ''PID'',
       example_segment ''ORC''] =
     Inr (unplaced_state\<lparr>heap := (heap unplaced_state)[0 :=
            \<lparr>el_name = ''OML_O33'',
             el_children = [SegmentChild (example_segment ''MSH''),
                            SegmentChild (example_segment ''ZZZ''),
                            SegmentChild (example_segment ''PID''),
                            SegmentChild (example_segment ''ORC'')],
             el_parent = None\<rparr>]\<rparr>)"
proof -
  have c: "create_groups example_message example_structure [example_segment ''MSH'']
             = Inr placed_MSH"
    by code_simp
  have p: "place_segment (example_segment ''ZZZ'') placed_MSH = Inr (- 1, unplaced_state)"
    by code_simp
  have pid: "index_of ''PID'' (structure_keys (slot_structure (example_structure ! 1))) = Some 0"
    and orc: "index_of ''ORC'' (structure_keys (slot_structure (example_structure ! 2))) = Some 0"
    by (simp_all add: example_structure_def structure_keys_def)
  note T = unplaced_segment_empties_stack
         [of example_message example_structure "[example_segment ''MSH'']" placed_MSH
             "example_segment ''ZZZ''" unplaced_state
             "[example_segment ''PID'', example_segment ''ORC'']",
          THEN conjunct1, THEN mp, OF conjI [OF c p]]
  from T have e: "structures unplaced_state = []" by simp
  from T have s: "create_groups example_message example_structure
      [example_segment ''MSH'', example_segment ''ZZZ''] = Inr unplaced_state" by simp
  from T have r: "create_groups example_message example_structure
      [example_segment ''MSH'', example_segment ''ZZZ'', example_segment ''PID'',
       example_segment ''ORC''] =
     Inr (unplaced_state\<lparr>heap := (heap unplaced_state)[0 :=
            \<lparr>el_name = ''OML_O33'',
             el_children = [SegmentChild (example_segment ''MSH''),
                            SegmentChild (example_segment ''ZZZ''),
                            SegmentChild (example_segment ''PID''),
                            SegmentChild (example_segment ''ORC'')],
             el_parent = None\<rparr>]\<rparr>)"
    by (simp add: unplaced_state_def)
  from c p e s pid orc r show ?thesis by blast
qed

text \<open>
  Claim C10. A segment that repeats a slot of the message structure whose maximum
  is 1, right after a segment matched at that slot, makes \<open>find_group\<close> pop the only
  frame and read the top of the empty \<^verbatim>\<open>indexes\<close> stack: the \<^verbatim>\<open>IndexError\<close>
  leaves \<open>create_groups\<close> uncaught.
\<close>

theorem repeated_root_segment_IndexError:
  assumes k: "index_of (seg_name s1) (structure_keys structure) = Some k"
    and one: "snd (slot_repetitions (structure ! k)) = 1"
    and same: "seg_name s2 = seg_name s1"
  shows "create_groups message structure (s1 # s2 # rest) = Inl IndexError"
proof -
  let ?st0 = "\<lparr>parents = [0], indexes = [- 1], structures = [structure], heap = [message]\<rparr>"
  let ?st1 = "\<lparr>parents = [0], indexes = [int k], structures = [structure],
               heap = add_segment [message] 0 s1\<rparr>"
  have f1: "find_group s1 ?st0 = Inr (int k, ?st1)"
    using k by (subst find_group_direct [where k = k]) simp_all
  have p1: "place_segment s1 ?st0 = Inr (int k, ?st1)"
    by (simp add: place_segment_def f1)
  have f2: "find_group s2 ?st1 = Inl IndexError"
    using k one same
    by (subst find_group_retry [where k = k]) (simp_all add: go_back_def find_group_empty)
  have p2: "place_segment s2 ?st1 = Inl IndexError"
    by (simp add: place_segment_def f2)
  show ?thesis
    by (simp add: create_groups_def initial_state_def p1 p2)
qed

theorem repeated_root_segment_IndexError_witness:
  "index_of (seg_name (example_segment ''MSH'')) (structure_keys example_structure) = Some 0 \<and>
   snd (slot_repetitions (example_structure ! 0)) = 1 \<and>
   seg_name (example_segment ''MSH'') = seg_name (example_segment ''MSH'') \<and>
   create_groups example_message example_structure
     [example_segment ''MSH'', example_segment ''MSH''] = Inl IndexError"
proof -
  have k: "index_of (seg_name (example_segment ''MSH'')) (structure_keys example_structure) = Some 0"
    by (simp add: example_structure_def structure_keys_def example_segment_def)
  have one: "snd (slot_repetitions (example_structure ! 0)) = 1"
    by (simp add: example_structure_def)
  from repeated_root_segment_IndexError [OF k one refl, of example_message "[]"] k one
  show ?thesis by simp
qed

section \<open>The tree that the structure assigner builds\<close>

text \<open>
  The segments of the subtree at address \<open>a\<close>, in document order. A group child is
  followed only to a larger address: every group is created after its parent.
\<close>

function segments_of :: "store \<Rightarrow> nat \<Rightarrow> segment list" where
  "segments_of h a =
     (if a < length h
      then concat (map (\<lambda>c. case c of
                              SegmentChild s \<Rightarrow> [s]
                            | GroupChild b \<Rightarrow> if a < b then segments_of h b else [])
                       (el_children (h ! a)))
      else [])"
  by pat_completeness auto
termination
  by (relation "measure (\<lambda>(h, a). length h - a)") auto

declare segments_of.simps [simp del]

text \<open>Every reference to a group goes to a larger, allocated address.\<close>

definition wf_store :: "store \<Rightarrow> bool" where
  "wf_store h =
     (\<forall>a < length h. \<forall>b. GroupChild b \<in> set (el_children (h ! a)) \<longrightarrow> a < b \<and> b < length h)"

lemma wf_storeD:
  "wf_store h \<Longrightarrow> a < length h \<Longrightarrow> GroupChild b \<in> set (el_children (h ! a)) \<Longrightarrow>
     a < b \<and> b < length h"
  unfolding wf_store_def by blast

definition child_segments :: "store \<Rightarrow> nat \<Rightarrow> child \<Rightarrow> segment list" where
  "child_segments h a c =
     (case c of SegmentChild s \<Rightarrow> [s] | GroupChild b \<Rightarrow> if a < b then segments_of h b else [])"

lemma segments_of_unfold:
  "a < length h \<Longrightarrow>
     segments_of h a = concat (map (child_segments h a) (el_children (h ! a)))"
  by (subst segments_of.simps) (simp add: child_segments_def [abs_def])

text \<open>The subtree at \<open>a\<close> depends on the children of the nodes from \<open>a\<close> on only.\<close>

lemma segments_of_cong_ge:
  assumes "length h' = length h"
    and "\<forall>x. a \<le> x \<and> x < length h \<longrightarrow> el_children (h' ! x) = el_children (h ! x)"
  shows "segments_of h' a = segments_of h a"
  using assms
proof (induction h a rule: segments_of.induct)
  case (1 h a)
  show ?case
  proof (cases "a < length h")
    case False
    with 1 show ?thesis by (simp add: segments_of.simps)
  next
    case True
    have ch: "el_children (h' ! a) = el_children (h ! a)" using 1(3) True by simp
    have "child_segments h' a c = child_segments h a c" if "c \<in> set (el_children (h ! a))" for c
    proof (cases c)
      case (SegmentChild s)
      then show ?thesis by (simp add: child_segments_def)
    next
      case (GroupChild b)
      show ?thesis
      proof (cases "a < b")
        case False
        with GroupChild show ?thesis by (simp add: child_segments_def)
      next
        case lt: True
        have "segments_of h' b = segments_of h b"
          using 1(1) [OF True that GroupChild lt 1(2)] 1(3) lt by simp
        with GroupChild show ?thesis by (simp add: child_segments_def)
      qed
    qed
    then show ?thesis
      using True 1(2) ch by (simp add: segments_of_unfold cong: map_cong)
  qed
qed

text \<open>New nodes at the end of a well-formed store change no subtree.\<close>

lemma segments_of_append:
  assumes "wf_store h" and "a < length h"
  shows "segments_of (h @ xs) a = segments_of h a"
  using assms
proof (induction h a rule: segments_of.induct)
  case (1 h a)
  have "child_segments (h @ xs) a c = child_segments h a c"
    if "c \<in> set (el_children (h ! a))" for c
  proof (cases c)
    case (SegmentChild s)
    then show ?thesis by (simp add: child_segments_def)
  next
    case (GroupChild b)
    with that have "GroupChild b \<in> set (el_children (h ! a))" by simp
    from wf_storeD [OF 1(2,3) this] have b: "a < b" "b < length h" by simp_all
    have "segments_of (h @ xs) b = segments_of h b"
      using 1(1) [OF 1(3) that GroupChild b(1) 1(2) b(2)] .
    with GroupChild show ?thesis by (simp add: child_segments_def)
  qed
  then show ?case
    using 1(3) by (simp add: segments_of_unfold nth_append cong: map_cong)
qed

text \<open>
  Stability: when the nodes outside a set \<open>A\<close> keep their children and refer to no
  node of \<open>A\<close>, their subtrees are unchanged.
\<close>

lemma segments_of_stable:
  assumes "wf_store h" and "length h \<le> length h'"
    and "\<forall>x < length h. x \<notin> A \<longrightarrow> el_children (h' ! x) = el_children (h ! x)"
    and "\<forall>x < length h. x \<notin> A \<longrightarrow> (\<forall>b. GroupChild b \<in> set (el_children (h ! x)) \<longrightarrow> b \<notin> A)"
    and "a < length h" and "a \<notin> A"
  shows "segments_of h' a = segments_of h a"
  using assms
proof (induction h a rule: segments_of.induct)
  case (1 h a)
  have ch: "el_children (h' ! a) = el_children (h ! a)" using 1(4,6,7) by simp
  have "child_segments h' a c = child_segments h a c"
    if "c \<in> set (el_children (h ! a))" for c
  proof (cases c)
    case (SegmentChild s)
    then show ?thesis by (simp add: child_segments_def)
  next
    case (GroupChild b)
    with that have m: "GroupChild b \<in> set (el_children (h ! a))" by simp
    from wf_storeD [OF 1(2,6) this] have b: "a < b" "b < length h" by simp_all
    from m 1(5,6,7) have nb: "b \<notin> A" by blast
    have "segments_of h' b = segments_of h b"
      using 1(1) [OF 1(6) that GroupChild b(1) 1(2,3,4,5) b(2) nb] .
    with GroupChild show ?thesis by (simp add: child_segments_def)
  qed
  then show ?case
    using 1(3,6) ch by (simp add: segments_of_unfold cong: map_cong)
qed

lemma concat_map_butlast_last:
  "cs \<noteq> [] \<Longrightarrow> concat (map f cs) = concat (map f (butlast cs)) @ f (last cs)"
  by (induction cs rule: rev_induct) simp_all

text \<open>
  Along a chain of last children: when only the node at the end of the chain
  changes, and its subtree grows by \<open>ys\<close> at the end, so does every subtree on the
  chain.
\<close>

lemma segments_of_chain:
  assumes wf: "wf_store h"
    and sorted: "sorted_wrt (<) ps"
    and bound: "\<forall>p \<in> set ps. p < length h"
    and m: "m < length ps"
    and link: "\<forall>i < m. el_children (h ! (ps ! i)) \<noteq> []
                  \<and> last (el_children (h ! (ps ! i))) = GroupChild (ps ! Suc i)"
    and closed: "\<forall>a < length h. \<forall>b \<in> set ps. GroupChild b \<in> set (el_children (h ! a)) \<longrightarrow>
                   GroupChild b \<notin> set (butlast (el_children (h ! a))) \<and> a \<in> set ps"
    and len: "length h \<le> length h'"
    and same: "\<forall>x < length h. x \<noteq> ps ! m \<longrightarrow> el_children (h' ! x) = el_children (h ! x)"
    and grow: "segments_of h' (ps ! m) = segments_of h (ps ! m) @ ys"
    and i: "i \<le> m"
  shows "segments_of h' (ps ! i) = segments_of h (ps ! i) @ ys"
  using i
proof (induction "m - i" arbitrary: i)
  case 0
  then have "i = m" by simp
  with grow show ?case by simp
next
  case (Suc d)
  then have im: "i < m" and IH: "segments_of h' (ps ! Suc i) = segments_of h (ps ! Suc i) @ ys"
    by simp_all
  let ?x = "ps ! i"
  let ?cs = "el_children (h ! ?x)"
  from im m have il: "i < length ps" "Suc i < length ps" by simp_all
  then have x: "?x < length h" using bound by simp
  from sorted il im m have lt: "?x < ps ! Suc i" and ne: "?x \<noteq> ps ! m"
    using sorted_wrt_nth_less [OF sorted, of i "Suc i"] sorted_wrt_nth_less [OF sorted, of i m]
    by simp_all
  from same x ne have ch: "el_children (h' ! ?x) = ?cs" by simp
  from link im have cs: "?cs \<noteq> []" and last: "last ?cs = GroupChild (ps ! Suc i)" by simp_all
  have stable: "child_segments h' ?x c = child_segments h ?x c" if c: "c \<in> set (butlast ?cs)" for c
  proof (cases c)
    case (SegmentChild s)
    then show ?thesis by (simp add: child_segments_def)
  next
    case (GroupChild b)
    from c have cin: "c \<in> set ?cs" by (rule in_set_butlastD)
    with GroupChild wf_storeD [OF wf x] have b: "?x < b" "b < length h" by simp_all
    have nb: "b \<notin> set ps"
    proof
      assume "b \<in> set ps"
      with closed x cin GroupChild have "GroupChild b \<notin> set (butlast ?cs)" by blast
      with c GroupChild show False by simp
    qed
    have "segments_of h' b = segments_of h b"
    proof (rule segments_of_stable [where A = "set ps", OF wf len _ _ b(2) nb])
      show "\<forall>x<length h. x \<notin> set ps \<longrightarrow> el_children (h' ! x) = el_children (h ! x)"
        using same m by (metis nth_mem)
      show "\<forall>x<length h. x \<notin> set ps \<longrightarrow>
              (\<forall>b. GroupChild b \<in> set (el_children (h ! x)) \<longrightarrow> b \<notin> set ps)"
        using closed by blast
    qed
    with GroupChild show ?thesis by (simp add: child_segments_def)
  qed
  have "segments_of h' ?x = concat (map (child_segments h' ?x) ?cs)"
    using x len ch by (simp add: segments_of_unfold)
  also have "\<dots> = concat (map (child_segments h' ?x) (butlast ?cs)) @ child_segments h' ?x (last ?cs)"
    by (rule concat_map_butlast_last [OF cs])
  also have "map (child_segments h' ?x) (butlast ?cs) = map (child_segments h ?x) (butlast ?cs)"
    by (rule map_cong [OF refl stable])
  also have "child_segments h' ?x (last ?cs) = child_segments h ?x (last ?cs) @ ys"
    using last lt IH by (simp add: child_segments_def)
  also have "concat (map (child_segments h ?x) (butlast ?cs)) @ child_segments h ?x (last ?cs) @ ys
               = concat (map (child_segments h ?x) ?cs) @ ys"
    using concat_map_butlast_last [OF cs, of "child_segments h ?x"] by simp
  also have "concat (map (child_segments h ?x) ?cs) = segments_of h ?x"
    using x by (simp add: segments_of_unfold)
  finally show ?case .
qed

subsection \<open>The invariant of the search\<close>

text \<open>
  During a search the stack of parents has three regions. The frames below \<open>l\<close>
  form the path of last children from the message; the frames from \<open>l\<close> up to \<open>k\<close>
  are new groups, still empty and not attached; the frames from \<open>k\<close> on form a
  path of last children again, which hangs from frame \<open>k\<close>. Between two segments
  the whole stack is the first region.
\<close>

definition linked_at :: "nat \<Rightarrow> nat \<Rightarrow> nat \<Rightarrow> nat \<Rightarrow> bool" where
  "linked_at l k n i = (Suc i < n \<and> (Suc i < l \<or> k \<le> i))"

definition links :: "nat \<Rightarrow> nat \<Rightarrow> nat list \<Rightarrow> store \<Rightarrow> bool" where
  "links l k ps h =
     (\<forall>i. linked_at l k (length ps) i \<longrightarrow>
        el_children (h ! (ps ! i)) \<noteq> []
        \<and> last (el_children (h ! (ps ! i))) = GroupChild (ps ! Suc i))"

definition refs :: "nat \<Rightarrow> nat \<Rightarrow> nat list \<Rightarrow> store \<Rightarrow> bool" where
  "refs l k ps h =
     (\<forall>a < length h. \<forall>b \<in> set ps. GroupChild b \<in> set (el_children (h ! a)) \<longrightarrow>
        GroupChild b \<notin> set (butlast (el_children (h ! a)))
        \<and> (\<exists>i. linked_at l k (length ps) i \<and> ps ! i = a \<and> ps ! Suc i = b))"

definition fresh :: "nat \<Rightarrow> nat \<Rightarrow> state \<Rightarrow> bool" where
  "fresh l k st =
     (\<forall>i. l \<le> i \<and> i < k \<longrightarrow>
        el_children (heap st ! (parents st ! i)) = [] \<and> indexes st ! i = - 1)"

definition shape :: "nat \<Rightarrow> nat \<Rightarrow> state \<Rightarrow> bool" where
  "shape l k st =
     (length (indexes st) = length (parents st)
      \<and> length (structures st) = length (parents st)
      \<and> l \<le> k \<and> k \<le> length (parents st)
      \<and> (parents st \<noteq> [] \<longrightarrow> 0 < l \<and> parents st ! 0 = 0)
      \<and> heap st \<noteq> []
      \<and> sorted_wrt (<) (parents st)
      \<and> (\<forall>p \<in> set (parents st). p < length (heap st)))"

definition reg :: "nat \<Rightarrow> nat \<Rightarrow> state \<Rightarrow> segment list \<Rightarrow> bool" where
  "reg l k st d =
     (shape l k st \<and> wf_store (heap st) \<and> links l k (parents st) (heap st) \<and> fresh l k st
      \<and> refs l k (parents st) (heap st) \<and> segments_of (heap st) 0 = d)"

lemma regD:
  assumes "reg l k st d"
  shows "shape l k st" "wf_store (heap st)" "links l k (parents st) (heap st)" "fresh l k st"
    "refs l k (parents st) (heap st)" "segments_of (heap st) 0 = d"
  using assms by (simp_all add: reg_def)

lemma shapeD:
  assumes "shape l k st"
  shows "length (indexes st) = length (parents st)"
    "length (structures st) = length (parents st)"
    "l \<le> k" "k \<le> length (parents st)"
    "parents st \<noteq> [] \<Longrightarrow> 0 < l" "parents st \<noteq> [] \<Longrightarrow> parents st ! 0 = 0"
    "heap st \<noteq> []" "sorted_wrt (<) (parents st)"
    "p \<in> set (parents st) \<Longrightarrow> p < length (heap st)"
  using assms by (simp_all add: shape_def)

lemma linksD:
  "links l k ps h \<Longrightarrow> linked_at l k (length ps) i \<Longrightarrow>
     el_children (h ! (ps ! i)) \<noteq> [] \<and> last (el_children (h ! (ps ! i))) = GroupChild (ps ! Suc i)"
  by (simp add: links_def)

lemma refsD:
  "refs l k ps h \<Longrightarrow> a < length h \<Longrightarrow> b \<in> set ps \<Longrightarrow> GroupChild b \<in> set (el_children (h ! a)) \<Longrightarrow>
     GroupChild b \<notin> set (butlast (el_children (h ! a)))
     \<and> (\<exists>i. linked_at l k (length ps) i \<and> ps ! i = a \<and> ps ! Suc i = b)"
  unfolding refs_def by blast

lemma freshD:
  "fresh l k st \<Longrightarrow> l \<le> i \<Longrightarrow> i < k \<Longrightarrow>
     el_children (heap st ! (parents st ! i)) = [] \<and> indexes st ! i = - 1"
  by (simp add: fresh_def)

lemma sorted_nth_eq:
  assumes "sorted_wrt (<) (ps :: nat list)" "i < length ps" "j < length ps" "ps ! i = ps ! j"
  shows "i = j"
proof (rule ccontr)
  assume "i \<noteq> j"
  then consider "i < j" | "j < i" by linarith
  then show False
  proof cases
    case 1
    from sorted_wrt_nth_less [OF assms(1) 1 assms(3)] assms(4) show False by simp
  next
    case 2
    from sorted_wrt_nth_less [OF assms(1) 2 assms(2)] assms(4) show False by simp
  qed
qed

text \<open>Pushing the frame of a new group.\<close>

lemma reg_push:
  assumes r: "reg l (length (parents st)) st d" and ne: "parents st \<noteq> []"
  shows "reg l (Suc (length (parents st))) (push_group st g) d"
proof -
  let ?ps = "parents st" and ?h = "heap st"
  let ?n = "length ?ps"
  let ?st' = "push_group st g"
  note s = shapeD [OF regD(1) [OF r]]
  have ps': "parents ?st' = ?ps @ [length ?h]" and h': "heap ?st' = ?h @ [new_group (slot_name g)]"
    and ix': "indexes ?st' = indexes st @ [- 1]"
    and ss': "structures ?st' = structures st @ [slot_structure g]"
    by (simp_all add: push_group_def)
  have old: "(?h @ [new_group (slot_name g)]) ! a = ?h ! a" if "a < length ?h" for a
    using that by (simp add: nth_append)
  have new: "el_children ((?h @ [new_group (slot_name g)]) ! length ?h) = []"
    by (simp add: new_group_def)
  have la: "linked_at l (Suc ?n) (Suc ?n) i \<longleftrightarrow> linked_at l ?n ?n i" for i
    using s(3) by (auto simp: linked_at_def)
  have lal: "Suc i < l" if "linked_at l ?n ?n i" for i
    using that by (auto simp: linked_at_def)
  have shp: "shape l (Suc ?n) ?st'"
    unfolding shape_def ps' h' ix' ss'
    using s ne by (auto simp: sorted_wrt_append nth_append less_Suc_eq)
  have wf: "wf_store (heap ?st')"
    unfolding wf_store_def h'
  proof (intro allI impI)
    fix a b
    assume a: "a < length (?h @ [new_group (slot_name g)])"
      and b: "GroupChild b \<in> set (el_children ((?h @ [new_group (slot_name g)]) ! a))"
    show "a < b \<and> b < length (?h @ [new_group (slot_name g)])"
    proof (cases "a < length ?h")
      case True
      with b wf_storeD [OF regD(2) [OF r] True, of b] show ?thesis by (simp add: old)
    next
      case False
      with a have "a = length ?h" by simp
      with b new show ?thesis by simp
    qed
  qed
  have lk: "links l (Suc ?n) (parents ?st') (heap ?st')"
    unfolding links_def ps' h'
  proof (intro allI impI)
    fix i
    assume "linked_at l (Suc ?n) (length (?ps @ [length ?h])) i"
    then have li: "linked_at l ?n ?n i" by (simp add: la)
    from lal [OF li] s(3) have i: "Suc i < ?n" by simp
    then have "?ps ! i \<in> set ?ps" by simp
    then have "?ps ! i < length ?h" by (rule s(9))
    with linksD [OF regD(3) [OF r] li] i
    show "el_children ((?h @ [new_group (slot_name g)]) ! ((?ps @ [length ?h]) ! i)) \<noteq> [] \<and>
          last (el_children ((?h @ [new_group (slot_name g)]) ! ((?ps @ [length ?h]) ! i)))
            = GroupChild ((?ps @ [length ?h]) ! Suc i)"
      by (simp add: nth_append old)
  qed
  have fr: "fresh l (Suc ?n) ?st'"
    unfolding fresh_def ps' h' ix'
  proof (intro allI impI)
    fix i
    assume i: "l \<le> i \<and> i < Suc ?n"
    show "el_children ((?h @ [new_group (slot_name g)]) ! ((?ps @ [length ?h]) ! i)) = [] \<and>
          (indexes st @ [- 1]) ! i = - 1"
    proof (cases "i < ?n")
      case True
      then have "?ps ! i \<in> set ?ps" by simp
      then have "?ps ! i < length ?h" by (rule s(9))
      with freshD [OF regD(4) [OF r], of i] i True s(1) show ?thesis
        by (simp add: nth_append old)
    next
      case False
      with i have "i = ?n" by simp
      with s(1) new show ?thesis by (simp add: nth_append)
    qed
  qed
  have rf: "refs l (Suc ?n) (parents ?st') (heap ?st')"
    unfolding refs_def ps' h'
  proof (intro allI ballI impI)
    fix a b
    assume a: "a < length (?h @ [new_group (slot_name g)])"
      and b: "b \<in> set (?ps @ [length ?h])"
      and c: "GroupChild b \<in> set (el_children ((?h @ [new_group (slot_name g)]) ! a))"
    have al: "a < length ?h"
    proof (rule ccontr)
      assume "\<not> a < length ?h"
      with a have "a = length ?h" by simp
      with c new show False by simp
    qed
    with c have c': "GroupChild b \<in> set (el_children (?h ! a))" by (simp add: old)
    from wf_storeD [OF regD(2) [OF r] al c'] have bl: "b < length ?h" by simp
    with b have bp: "b \<in> set ?ps" by auto
    from refsD [OF regD(5) [OF r] al bp c'] obtain i where
      nb: "GroupChild b \<notin> set (butlast (el_children (?h ! a)))"
      and li: "linked_at l ?n ?n i" and pi: "?ps ! i = a" "?ps ! Suc i = b"
      by blast
    from lal [OF li] s(3) have i: "Suc i < ?n" by simp
    have "linked_at l (Suc ?n) (length (?ps @ [length ?h])) i \<and>
          (?ps @ [length ?h]) ! i = a \<and> (?ps @ [length ?h]) ! Suc i = b"
      using li pi i by (simp add: la nth_append)
    with nb al
    show "GroupChild b \<notin> set (butlast (el_children ((?h @ [new_group (slot_name g)]) ! a))) \<and>
          (\<exists>i. linked_at l (Suc ?n) (length (?ps @ [length ?h])) i \<and>
               (?ps @ [length ?h]) ! i = a \<and> (?ps @ [length ?h]) ! Suc i = b)"
      by (auto simp: old)
  qed
  have sg: "segments_of (heap ?st') 0 = d"
    unfolding h' using segments_of_append [OF regD(2) [OF r], of 0] s(7) regD(6) [OF r]
    by simp
  from shp wf lk fr rf sg show ?thesis by (simp add: reg_def)
qed

text \<open>Popping the top frame.\<close>

lemma go_back_Inr:
  assumes "go_back st = Inr st'"
  shows "parents st \<noteq> []" "structures st \<noteq> []" "indexes st \<noteq> []"
    "parents st' = butlast (parents st)" "structures st' = butlast (structures st)"
    "indexes st' = butlast (indexes st)" "heap st' = heap st"
  using assms by (auto simp: go_back_def split: if_splits)

lemma reg_pop:
  assumes r: "reg l (length (parents st)) st d" and gb: "go_back st = Inr st'"
  shows "reg (min l (length (parents st) - 1)) (length (parents st) - 1) st' d"
proof -
  let ?ps = "parents st" and ?h = "heap st"
  let ?n = "length ?ps"
  let ?l' = "min l (?n - 1)"
  note s = shapeD [OF regD(1) [OF r]]
  note g = go_back_Inr [OF gb]
  from g(1) have n: "0 < ?n" by simp
  have la: "linked_at l ?n ?n i" "Suc i < ?n - 1" if "linked_at ?l' (?n - 1) (?n - 1) i" for i
    using that by (auto simp: linked_at_def)
  have nb: "butlast ?ps ! i = ?ps ! i" if "i < ?n - 1" for i
    using that by (simp add: nth_butlast)
  have shp: "shape ?l' (?n - 1) st'"
    unfolding shape_def g(4-7)
  proof (intro conjI impI)
    assume ne: "butlast ?ps \<noteq> []"
    then have "1 < ?n" by (cases ?ps rule: rev_cases) auto
    with s(5) [OF g(1)] show "0 < ?l'" by simp
    from \<open>1 < ?n\<close> s(6) [OF g(1)] show "butlast ?ps ! 0 = 0" by (simp add: nth_butlast)
  next
    show "sorted_wrt (<) (butlast ?ps)"
      using s(8) g(1) by (metis append_butlast_last_id sorted_wrt_append)
    show "\<forall>p\<in>set (butlast ?ps). p < length ?h"
      using s(9) by (auto dest: in_set_butlastD)
  qed (use s in simp_all)
  have lk: "links ?l' (?n - 1) (parents st') (heap st')"
    unfolding links_def g(4,7)
  proof (intro allI impI)
    fix i
    assume "linked_at ?l' (?n - 1) (length (butlast ?ps)) i"
    then have li: "linked_at ?l' (?n - 1) (?n - 1) i" by simp
    from linksD [OF regD(3) [OF r] la(1) [OF li]] la(2) [OF li]
    show "el_children (?h ! (butlast ?ps ! i)) \<noteq> [] \<and>
          last (el_children (?h ! (butlast ?ps ! i))) = GroupChild (butlast ?ps ! Suc i)"
      by (simp add: nb)
  qed
  have fr: "fresh ?l' (?n - 1) st'"
    unfolding fresh_def g(4,6,7)
  proof (intro allI impI)
    fix i
    assume i: "?l' \<le> i \<and> i < ?n - 1"
    then have "l \<le> i" "i < ?n" by (auto simp: min_def split: if_splits)
    from freshD [OF regD(4) [OF r] this] i s(1)
    show "el_children (?h ! (butlast ?ps ! i)) = [] \<and> butlast (indexes st) ! i = - 1"
      by (simp add: nb nth_butlast)
  qed
  have rf: "refs ?l' (?n - 1) (parents st') (heap st')"
    unfolding refs_def g(4,7)
  proof (intro allI ballI impI)
    fix a b
    assume a: "a < length ?h" and b: "b \<in> set (butlast ?ps)"
      and c: "GroupChild b \<in> set (el_children (?h ! a))"
    from b have bp: "b \<in> set ?ps" by (rule in_set_butlastD)
    from refsD [OF regD(5) [OF r] a bp c] obtain i where
      nbl: "GroupChild b \<notin> set (butlast (el_children (?h ! a)))"
      and li: "linked_at l ?n ?n i" and pi: "?ps ! i = a" "?ps ! Suc i = b"
      by blast
    from li have i: "Suc i < ?n" "Suc i < l" by (auto simp: linked_at_def)
    from b obtain j where j: "j < ?n - 1" "butlast ?ps ! j = b"
      by (auto simp: in_set_conv_nth)
    with pi(2) have "?ps ! Suc i = ?ps ! j" by (simp add: nb)
    from sorted_nth_eq [OF s(8) i(1) _ this] j(1) have "Suc i = j" by simp
    with j(1) i have "linked_at ?l' (?n - 1) (length (butlast ?ps)) i"
      by (simp add: linked_at_def)
    moreover from pi j(1) \<open>Suc i = j\<close> have "butlast ?ps ! i = a" "butlast ?ps ! Suc i = b"
      by (simp_all add: nb)
    ultimately
    show "GroupChild b \<notin> set (butlast (el_children (?h ! a))) \<and>
          (\<exists>i. linked_at ?l' (?n - 1) (length (butlast ?ps)) i \<and>
               butlast ?ps ! i = a \<and> butlast ?ps ! Suc i = b)"
      using nbl by blast
  qed
  from shp lk fr rf regD(2,6) [OF r] g(7) show ?thesis by (simp add: reg_def)
qed

text \<open>Appending a child to the node of frame \<open>m\<close>.\<close>

lemma child_segments_above:
  assumes "length h' = length h"
    and "\<forall>x < length h. x \<noteq> t \<longrightarrow> el_children (h' ! x) = el_children (h ! x)"
  shows "child_segments h' t c = child_segments h t c"
proof (cases c)
  case (SegmentChild s)
  then show ?thesis by (simp add: child_segments_def)
next
  case (GroupChild b)
  show ?thesis
  proof (cases "t < b")
    case True
    have "segments_of h' b = segments_of h b"
      by (rule segments_of_cong_ge [OF assms(1)]) (use assms(2) True in auto)
    with GroupChild show ?thesis by (simp add: child_segments_def)
  next
    case False
    with GroupChild show ?thesis by (simp add: child_segments_def)
  qed
qed

lemma segments_of_add_child:
  assumes "length h' = length h" and "t < length h"
    and "\<forall>x < length h. el_children (h' ! x) =
           (if x = t then el_children (h ! x) @ [c] else el_children (h ! x))"
  shows "segments_of h' t = segments_of h t @ child_segments h t c"
proof -
  have same: "\<forall>x < length h. x \<noteq> t \<longrightarrow> el_children (h' ! x) = el_children (h ! x)"
    using assms(3) by simp
  have "segments_of h' t = concat (map (child_segments h' t) (el_children (h ! t) @ [c]))"
    using assms by (simp add: segments_of_unfold)
  also have "child_segments h' t = child_segments h t"
    using child_segments_above [OF assms(1) same] by (intro ext)
  finally show ?thesis using assms(2) by (simp add: segments_of_unfold)
qed

lemma reg_add_child_fresh:
  assumes r: "reg l (Suc m) st d" and lm: "l \<le> m"
    and ps': "parents st' = parents st"
    and ix': "indexes st' = (indexes st)[m := v]"
    and ss': "length (structures st') = length (structures st)"
    and hl: "length (heap st') = length (heap st)"
    and hc: "\<forall>x < length (heap st). el_children (heap st' ! x) =
               (if x = parents st ! m then el_children (heap st ! x) @ [c]
                else el_children (heap st ! x))"
    and c: "(c = SegmentChild seg \<and> Suc m = length (parents st))
            \<or> (c = GroupChild (parents st ! Suc m) \<and> Suc m < length (parents st))"
  shows "reg l m st' d"
    and "segments_of (heap st') (parents st ! m) = child_segments (heap st) (parents st ! m) c"
proof -
  let ?ps = "parents st" and ?h = "heap st" and ?h' = "heap st'"
  let ?n = "length ?ps"
  let ?t = "?ps ! m"
  note s = shapeD [OF regD(1) [OF r]]
  from s(4) have mn: "m < ?n" by simp
  then have tin: "?t \<in> set ?ps" by simp
  then have t: "?t < length ?h" by (rule s(9))
  from mn have ne: "?ps \<noteq> []" by auto
  from freshD [OF regD(4) [OF r] lm] have empty: "el_children (?h ! ?t) = []" by simp
  have same: "\<forall>x < length ?h. x \<noteq> ?t \<longrightarrow> el_children (?h' ! x) = el_children (?h ! x)"
    using hc by simp
  have tch: "el_children (?h' ! ?t) = [c]" using hc t empty by simp
  have other: "el_children (?h' ! (?ps ! i)) = el_children (?h ! (?ps ! i))"
    if "i < ?n" "i \<noteq> m" for i
  proof -
    from that(1) have "?ps ! i \<in> set ?ps" by simp
    then have "?ps ! i < length ?h" by (rule s(9))
    moreover have "?ps ! i \<noteq> ?t" using sorted_nth_eq [OF s(8) that(1) mn] that(2) by blast
    ultimately show ?thesis using same by simp
  qed
  have shp: "shape l m st'"
    unfolding shape_def ps' ix' using s lm ss' hl by auto
  have wf: "wf_store ?h'"
    unfolding wf_store_def hl
  proof (intro allI impI)
    fix a b
    assume a: "a < length ?h" and b: "GroupChild b \<in> set (el_children (?h' ! a))"
    show "a < b \<and> b < length ?h"
    proof (cases "a = ?t")
      case True
      with b tch have cb: "c = GroupChild b" by simp
      with c have b': "b = ?ps ! Suc m" and sm: "Suc m < ?n" by auto
      from sorted_wrt_nth_less [OF s(8) _ sm, of m] have "?t < b" by (simp add: b')
      moreover from sm have "?ps ! Suc m \<in> set ?ps" by simp
      then have "b < length ?h" unfolding b' by (rule s(9))
      ultimately show ?thesis using True by simp
    next
      case False
      with b same a have "GroupChild b \<in> set (el_children (?h ! a))" by simp
      from wf_storeD [OF regD(2) [OF r] a this] show ?thesis .
    qed
  qed
  have lk: "links l m (parents st') ?h'"
    unfolding links_def ps'
  proof (intro allI impI)
    fix i
    assume li: "linked_at l m ?n i"
    show "el_children (?h' ! (?ps ! i)) \<noteq> [] \<and>
          last (el_children (?h' ! (?ps ! i))) = GroupChild (?ps ! Suc i)"
    proof (cases "i = m")
      case True
      with li have "Suc m < ?n" by (simp add: linked_at_def)
      with c have "c = GroupChild (?ps ! Suc m)" by auto
      with True tch show ?thesis by simp
    next
      case False
      with li lm have li': "linked_at l (Suc m) ?n i" and i: "i < ?n"
        by (auto simp: linked_at_def)
      from linksD [OF regD(3) [OF r] li'] other [OF i False] show ?thesis by simp
    qed
  qed
  have fr: "fresh l m st'"
    unfolding fresh_def ps' ix'
  proof (intro allI impI)
    fix i
    assume i: "l \<le> i \<and> i < m"
    with mn have "i < ?n" "i \<noteq> m" by simp_all
    from other [OF this] freshD [OF regD(4) [OF r], of i] i
    show "el_children (?h' ! (?ps ! i)) = [] \<and> (indexes st)[m := v] ! i = - 1"
      by simp
  qed
  have rf: "refs l m (parents st') ?h'"
    unfolding refs_def ps' hl
  proof (intro allI ballI impI)
    fix a b
    assume a: "a < length ?h" and b: "b \<in> set ?ps"
      and cb: "GroupChild b \<in> set (el_children (?h' ! a))"
    show "GroupChild b \<notin> set (butlast (el_children (?h' ! a))) \<and>
          (\<exists>i. linked_at l m ?n i \<and> ?ps ! i = a \<and> ?ps ! Suc i = b)"
    proof (cases "a = ?t")
      case True
      with cb tch have "c = GroupChild b" by simp
      with c have b': "b = ?ps ! Suc m" and sm: "Suc m < ?n" by auto
      then have "linked_at l m ?n m" by (simp add: linked_at_def)
      with True tch b' show ?thesis by auto
    next
      case False
      with cb same a have old: "GroupChild b \<in> set (el_children (?h ! a))" by simp
      from refsD [OF regD(5) [OF r] a b old] obtain i where
        nbl: "GroupChild b \<notin> set (butlast (el_children (?h ! a)))"
        and li: "linked_at l (Suc m) ?n i" and pi: "?ps ! i = a" "?ps ! Suc i = b"
        by blast
      from li have "linked_at l m ?n i" by (auto simp: linked_at_def)
      with nbl pi False same a show ?thesis by auto
    qed
  qed
  have unref: "b \<noteq> ?t" if "x < length ?h" "GroupChild b \<in> set (el_children (?h ! x))" for x b
  proof
    assume "b = ?t"
    with refsD [OF regD(5) [OF r] that(1) tin] that(2) obtain i where
      li: "linked_at l (Suc m) ?n i" and pi: "?ps ! Suc i = ?t"
      by blast
    from li have "Suc i < ?n" by (simp add: linked_at_def)
    from sorted_nth_eq [OF s(8) this mn pi] have "Suc i = m" .
    with li lm show False by (auto simp: linked_at_def)
  qed
  have t0: "?t \<noteq> 0"
  proof -
    from s(5) [OF ne] lm have "0 < m" by simp
    from sorted_wrt_nth_less [OF s(8) this mn] s(6) [OF ne] show ?thesis by simp
  qed
  have "segments_of ?h' 0 = segments_of ?h 0"
  proof (rule segments_of_stable [where A = "{?t}", OF regD(2) [OF r]])
    show "length ?h \<le> length ?h'" using hl by simp
    show "\<forall>x<length ?h. x \<notin> {?t} \<longrightarrow> el_children (?h' ! x) = el_children (?h ! x)"
      using same by simp
    show "\<forall>x<length ?h. x \<notin> {?t} \<longrightarrow>
            (\<forall>b. GroupChild b \<in> set (el_children (?h ! x)) \<longrightarrow> b \<notin> {?t})"
      using unref by blast
    show "0 < length ?h" using s(7) by simp
    show "0 \<notin> {?t}" using t0 by simp
  qed
  with regD(6) [OF r] have sg: "segments_of ?h' 0 = d" by simp
  from shp wf lk fr rf sg show "reg l m st' d" by (simp add: reg_def)
  from segments_of_add_child [OF hl t hc] empty t
  show "segments_of ?h' ?t = child_segments ?h ?t c"
    by (simp add: segments_of_unfold)
qed

lemma reg_add_child_linked:
  assumes r: "reg (Suc m) (Suc m) st d"
    and ps': "parents st' = parents st"
    and ix': "length (indexes st') = length (indexes st)"
    and ss': "length (structures st') = length (structures st)"
    and hl: "length (heap st') = length (heap st)"
    and hc: "\<forall>x < length (heap st). el_children (heap st' ! x) =
               (if x = parents st ! m then el_children (heap st ! x) @ [c]
                else el_children (heap st ! x))"
    and c: "(c = SegmentChild seg \<and> Suc m = length (parents st))
            \<or> (c = GroupChild (parents st ! Suc m) \<and> Suc m < length (parents st))"
  shows "reg (length (parents st)) (length (parents st)) st'
           (d @ child_segments (heap st) (parents st ! m) c)"
proof -
  let ?ps = "parents st" and ?h = "heap st" and ?h' = "heap st'"
  let ?n = "length ?ps"
  let ?t = "?ps ! m"
  note s = shapeD [OF regD(1) [OF r]]
  from s(4) have mn: "m < ?n" by simp
  then have tin: "?t \<in> set ?ps" by simp
  then have t: "?t < length ?h" by (rule s(9))
  from mn have ne: "?ps \<noteq> []" by auto
  have same: "\<forall>x < length ?h. x \<noteq> ?t \<longrightarrow> el_children (?h' ! x) = el_children (?h ! x)"
    using hc by simp
  have tch: "el_children (?h' ! ?t) = el_children (?h ! ?t) @ [c]" using hc t by simp
  have other: "el_children (?h' ! (?ps ! i)) = el_children (?h ! (?ps ! i))"
    if "i < ?n" "i \<noteq> m" for i
  proof -
    from that(1) have "?ps ! i \<in> set ?ps" by simp
    then have "?ps ! i < length ?h" by (rule s(9))
    moreover have "?ps ! i \<noteq> ?t" using sorted_nth_eq [OF s(8) that(1) mn] that(2) by blast
    ultimately show ?thesis using same by simp
  qed
  have noold: "GroupChild b \<notin> set (el_children (?h ! ?t))" if "b \<in> set ?ps" for b
  proof
    assume "GroupChild b \<in> set (el_children (?h ! ?t))"
    from refsD [OF regD(5) [OF r] t that this] obtain i where
      li: "linked_at (Suc m) (Suc m) ?n i" and pi: "?ps ! i = ?t"
      by blast
    from li have "i < ?n" by (simp add: linked_at_def)
    from sorted_nth_eq [OF s(8) this mn pi] li show False by (simp add: linked_at_def)
  qed
  have shp: "shape ?n ?n st'"
    unfolding shape_def ps' using s ix' ss' hl by auto
  have wf: "wf_store ?h'"
    unfolding wf_store_def hl
  proof (intro allI impI)
    fix a b
    assume a: "a < length ?h" and b: "GroupChild b \<in> set (el_children (?h' ! a))"
    show "a < b \<and> b < length ?h"
    proof (cases "a = ?t \<and> c = GroupChild b")
      case True
      with c have b': "b = ?ps ! Suc m" and sm: "Suc m < ?n" by auto
      from sorted_wrt_nth_less [OF s(8) _ sm, of m] have "?t < b" by (simp add: b')
      moreover from sm have "?ps ! Suc m \<in> set ?ps" by simp
      then have "b < length ?h" unfolding b' by (rule s(9))
      ultimately show ?thesis using True by simp
    next
      case False
      with b same tch a have "GroupChild b \<in> set (el_children (?h ! a))"
        by (cases "a = ?t") auto
      from wf_storeD [OF regD(2) [OF r] a this] show ?thesis .
    qed
  qed
  have lk: "links ?n ?n (parents st') ?h'"
    unfolding links_def ps'
  proof (intro allI impI)
    fix i
    assume li: "linked_at ?n ?n ?n i"
    show "el_children (?h' ! (?ps ! i)) \<noteq> [] \<and>
          last (el_children (?h' ! (?ps ! i))) = GroupChild (?ps ! Suc i)"
    proof (cases "i = m")
      case True
      with li have "Suc m < ?n" by (simp add: linked_at_def)
      with c have "c = GroupChild (?ps ! Suc m)" by auto
      with True tch show ?thesis by simp
    next
      case False
      with li have li': "linked_at (Suc m) (Suc m) ?n i" and i: "i < ?n"
        by (auto simp: linked_at_def)
      from linksD [OF regD(3) [OF r] li'] other [OF i False] show ?thesis by simp
    qed
  qed
  have fr: "fresh ?n ?n st'"
    by (auto simp: fresh_def)
  have rf: "refs ?n ?n (parents st') ?h'"
    unfolding refs_def ps' hl
  proof (intro allI ballI impI)
    fix a b
    assume a: "a < length ?h" and b: "b \<in> set ?ps"
      and cb: "GroupChild b \<in> set (el_children (?h' ! a))"
    show "GroupChild b \<notin> set (butlast (el_children (?h' ! a))) \<and>
          (\<exists>i. linked_at ?n ?n ?n i \<and> ?ps ! i = a \<and> ?ps ! Suc i = b)"
    proof (cases "a = ?t")
      case True
      with cb tch noold [OF b] have "c = GroupChild b" by simp
      with c have b': "b = ?ps ! Suc m" and sm: "Suc m < ?n" by auto
      then have "linked_at ?n ?n ?n m" by (simp add: linked_at_def)
      with True tch b' noold [OF b] show ?thesis by auto
    next
      case False
      with cb same a have old: "GroupChild b \<in> set (el_children (?h ! a))" by simp
      from refsD [OF regD(5) [OF r] a b old] obtain i where
        nbl: "GroupChild b \<notin> set (butlast (el_children (?h ! a)))"
        and li: "linked_at (Suc m) (Suc m) ?n i" and pi: "?ps ! i = a" "?ps ! Suc i = b"
        by blast
      from li have "linked_at ?n ?n ?n i" by (auto simp: linked_at_def)
      with nbl pi False same a show ?thesis by auto
    qed
  qed
  have "segments_of ?h' (?ps ! 0) = segments_of ?h (?ps ! 0) @ child_segments ?h ?t c"
  proof (rule segments_of_chain [where m = m, OF regD(2) [OF r] s(8) _ mn])
    show "\<forall>p\<in>set ?ps. p < length ?h" using s(9) by blast
    show "\<forall>i<m. el_children (?h ! (?ps ! i)) \<noteq> [] \<and>
            last (el_children (?h ! (?ps ! i))) = GroupChild (?ps ! Suc i)"
    proof (intro allI impI)
      fix i assume "i < m"
      with mn have "linked_at (Suc m) (Suc m) ?n i" by (simp add: linked_at_def)
      from linksD [OF regD(3) [OF r] this]
      show "el_children (?h ! (?ps ! i)) \<noteq> [] \<and>
            last (el_children (?h ! (?ps ! i))) = GroupChild (?ps ! Suc i)" .
    qed
    show "\<forall>a<length ?h. \<forall>b\<in>set ?ps. GroupChild b \<in> set (el_children (?h ! a)) \<longrightarrow>
            GroupChild b \<notin> set (butlast (el_children (?h ! a))) \<and> a \<in> set ?ps"
    proof (intro allI ballI impI)
      fix a b
      assume a: "a < length ?h" and b: "b \<in> set ?ps"
        and cb: "GroupChild b \<in> set (el_children (?h ! a))"
      from refsD [OF regD(5) [OF r] a b cb] obtain i where
        nbl: "GroupChild b \<notin> set (butlast (el_children (?h ! a)))"
        and li: "linked_at (Suc m) (Suc m) ?n i" and pi: "?ps ! i = a"
        by blast
      from li have "i < ?n" by (simp add: linked_at_def)
      then have "?ps ! i \<in> set ?ps" by simp
      with nbl pi show "GroupChild b \<notin> set (butlast (el_children (?h ! a))) \<and> a \<in> set ?ps"
        by simp
    qed
    show "length ?h \<le> length ?h'" using hl by simp
    show "\<forall>x<length ?h. x \<noteq> ?t \<longrightarrow> el_children (?h' ! x) = el_children (?h ! x)"
      by (rule same)
    show "segments_of ?h' ?t = segments_of ?h ?t @ child_segments ?h ?t c"
      by (rule segments_of_add_child [OF hl t hc])
    show "0 \<le> m" by simp
  qed
  with s(6) [OF ne] regD(6) [OF r]
  have sg: "segments_of ?h' 0 = d @ child_segments ?h ?t c" by simp
  from shp wf lk fr rf sg show ?thesis by (simp add: reg_def)
qed

text \<open>The two store updates.\<close>

lemma add_segment_children:
  assumes "t < length h"
  shows "length (add_segment h t seg) = length h"
    and "\<forall>x < length h. el_children (add_segment h t seg ! x) =
           (if x = t then el_children (h ! x) @ [SegmentChild seg] else el_children (h ! x))"
  using assms by (simp_all add: add_segment_def nth_list_update)

lemma set_parent_children:
  assumes "t < length h" "grp < length h" "t \<noteq> grp"
  shows "length (set_parent h grp t) = length h"
    and "\<forall>x < length h. el_children (set_parent h grp t ! x) =
           (if x = t then el_children (h ! x) @ [GroupChild grp] else el_children (h ! x))"
  using assms by (simp_all add: set_parent_def Let_def nth_list_update)

lemma index_of_nth:
  assumes "sorted_wrt (<) (xs :: nat list)" "i < length xs"
  shows "index_of (xs ! i) xs = Some i"
  using assms
proof (induction xs arbitrary: i)
  case Nil
  then show ?case by simp
next
  case (Cons x xs)
  show ?case
  proof (cases i)
    case 0
    then show ?thesis by simp
  next
    case (Suc j)
    with Cons.prems have j: "j < length xs" and s: "sorted_wrt (<) xs" by simp_all
    from Cons.prems(1) j have "x < xs ! j" by simp
    with Suc Cons.IH [OF s j] show ?thesis by simp
  qed
qed

lemma attach_group_Inr:
  assumes a: "attach_group str g grp st3 = Inr (r, st4)"
    and sorted: "sorted_wrt (<) (parents st3)"
    and n: "0 < n" "n < length (parents st3)" "parents st3 ! n = grp"
    and len: "length (indexes st3) = length (parents st3)"
  shows "0 \<le> r" "parents st4 = parents st3" "structures st4 = structures st3"
    "indexes st4 = (indexes st3)[n - 1 := r]"
    "heap st4 = set_parent (heap st3) grp (parents st3 ! (n - 1))"
proof -
  from index_of_nth [OF sorted n(2)] n(3) have i: "index_of grp (parents st3) = Some n"
    by simp
  from n have g: "py_get (parents st3) (int n - 1) = Some (parents st3 ! (n - 1))"
    by (auto simp: py_get_def py_index_def nat_diff_distrib')
  from n len have s: "py_set (indexes st3) (int n - 1) v = Some ((indexes st3)[n - 1 := v])" for v
    by (auto simp: py_set_def py_index_def nat_diff_distrib')
  from a obtain si where "index_of (slot_name g) (structure_keys str) = Some si"
    and r: "r = int si"
    and st4: "st4 = st3\<lparr>heap := set_parent (heap st3) grp (parents st3 ! (n - 1)),
                        indexes := (indexes st3)[n - 1 := int si]\<rparr>"
    by (auto simp: attach_group_def i g s split: option.splits)
  from r show "0 \<le> r" by simp
  from st4 r show "parents st4 = parents st3" "structures st4 = structures st3"
    "indexes st4 = (indexes st3)[n - 1 := r]"
    "heap st4 = set_parent (heap st3) grp (parents st3 ! (n - 1))"
    by simp_all
qed

text \<open>
  A frame whose index is not \<open>- 1\<close> is not a new group: when the search retries one
  level up, the whole stack is attached.
\<close>

lemma retry_whole_stack:
  assumes r: "reg l (length (parents st)) st d"
    and ix: "indexes st \<noteq> []" "int k \<le> last (indexes st)"
  shows "l = length (parents st)"
proof (rule ccontr)
  let ?n = "length (parents st)"
  note s = shapeD [OF regD(1) [OF r]]
  from ix(1) s(1) have n: "0 < ?n" by auto
  assume "l \<noteq> ?n"
  with s(3) have "l \<le> ?n - 1" "?n - 1 < ?n" using n by simp_all
  from freshD [OF regD(4) [OF r] this] have "indexes st ! (?n - 1) = - 1" by simp
  with ix s(1) show False by (simp add: last_conv_nth)
qed

lemma reg_retry:
  assumes r: "reg l (length (parents st)) st d"
    and ix: "indexes st \<noteq> []" "int k \<le> last (indexes st)"
    and gb: "go_back st = Inr st1"
  shows "reg (length (parents st1)) (length (parents st1)) st1 d"
proof -
  note g = go_back_Inr [OF gb]
  from reg_pop [OF r gb] retry_whole_stack [OF r ix] show ?thesis by (simp add: g(4))
qed

subsection \<open>What one search does\<close>

text \<open>
  The state \<open>st'\<close> that a search leaves when it starts in \<open>st\<close> with the frames
  below \<open>l\<close> attached and returns \<open>r\<close>. When the top frame is a new group
  (\<open>l\<close> below the height of the stack) a failed search leaves the stack as it was,
  and a successful one has put the segment under the top frame, which is still
  not attached. When the whole stack is attached, a failed search leaves a lower
  part of the stack, and a successful one has added the segment at the end of the
  tree.
\<close>

definition post :: "nat \<Rightarrow> state \<Rightarrow> segment \<Rightarrow> segment list \<Rightarrow> int \<Rightarrow> state \<Rightarrow> bool" where
  "post l st seg d r st' =
     (if l < length (parents st)
      then (r = - 1 \<longrightarrow> reg l (length (parents st)) st' d \<and> parents st' = parents st)
           \<and> (0 \<le> r \<longrightarrow>
                reg l (length (parents st) - 1) st' d
                \<and> take (length (parents st)) (parents st') = parents st
                \<and> segments_of (heap st') (last (parents st)) = [seg])
      else (r = - 1 \<longrightarrow> (\<exists>j \<le> length (parents st). reg j j st' d \<and> parents st' = take j (parents st)))
           \<and> (0 \<le> r \<longrightarrow> reg (length (parents st')) (length (parents st')) st' (d @ [seg])))"

lemma post_direct:
  assumes r: "reg l (length (parents st)) st d" and ne: "parents st \<noteq> []"
    and st': "st' = st\<lparr>indexes := butlast (indexes st) @ [int k],
                       heap := add_segment (heap st) (last (parents st)) seg\<rparr>"
  shows "post l st seg d (int k) st'"
proof -
  let ?ps = "parents st" and ?h = "heap st"
  let ?n = "length ?ps"
  let ?m = "?n - 1"
  note s = shapeD [OF regD(1) [OF r]]
  from ne have n: "0 < ?n" "Suc ?m = ?n" by simp_all
  from ne have t: "last ?ps = ?ps ! ?m" by (simp add: last_conv_nth)
  from n have "?ps ! ?m \<in> set ?ps" by simp
  then have tl: "?ps ! ?m < length ?h" by (rule s(9))
  from s(1) n obtain ys y where ys: "indexes st = ys @ [y]" "length ys = ?m"
    by (cases "indexes st" rule: rev_cases) auto
  have ix: "butlast (indexes st) @ [int k] = (indexes st)[?m := int k]"
    unfolding ys(1) ys(2) [symmetric] by simp
  have ps': "parents st' = ?ps" and ix': "indexes st' = (indexes st)[?m := int k]"
    and ss': "length (structures st') = length (structures st)"
    and h': "heap st' = add_segment ?h (?ps ! ?m) seg"
    by (simp_all add: st' ix t)
  note ch = add_segment_children [OF tl, of seg, folded h']
  have c: "(SegmentChild seg = SegmentChild seg \<and> Suc ?m = ?n)
            \<or> (SegmentChild seg = GroupChild (?ps ! Suc ?m) \<and> Suc ?m < ?n)"
    using n by simp
  show ?thesis
  proof (cases "l < ?n")
    case True
    then have lm: "l \<le> ?m" by simp
    from r n have r': "reg l (Suc ?m) st d" by simp
    from reg_add_child_fresh [OF r' lm ps' ix' ss' ch(1) ch(2) c]
    have "reg l ?m st' d" "segments_of (heap st') (?ps ! ?m) = [seg]"
      by (simp_all add: child_segments_def)
    with True ps' t show ?thesis by (simp add: post_def)
  next
    case False
    with s(3,4) have "l = ?n" by simp
    with r n have r': "reg (Suc ?m) (Suc ?m) st d" by simp
    have ixl: "length (indexes st') = length (indexes st)" by (simp add: ix')
    from reg_add_child_linked [OF r' ps' ixl ss' ch(1) ch(2) c]
    have "reg ?n ?n st' (d @ [seg])" by (simp add: child_segments_def)
    with False ps' show ?thesis by (simp add: post_def)
  qed
qed

lemma post_attach:
  assumes r: "reg l (length (parents st)) st3 d" and ne: "parents st \<noteq> []"
    and l: "l \<le> length (parents st)"
    and tk: "take (Suc (length (parents st))) (parents st3) = parents st @ [grp]"
    and sg: "segments_of (heap st3) grp = [seg]"
    and a: "attach_group str g grp st3 = Inr (r', st')"
  shows "post l st seg d r' st'"
proof -
  let ?ps = "parents st" and ?ps3 = "parents st3" and ?h = "heap st3"
  let ?n = "length ?ps"
  let ?m = "?n - 1"
  note s = shapeD [OF regD(1) [OF r]]
  from ne have n: "0 < ?n" "Suc ?m = ?n" by simp_all
  from tk have n3: "?n < length ?ps3"
    by (metis length_append_singleton length_take lessI min_less_iff_conj)
  from tk have pre: "?ps3 ! i = (?ps @ [grp]) ! i" if "i < Suc ?n" for i
    using that by (metis nth_take)
  from pre [of ?n] have g: "?ps3 ! ?n = grp" by simp
  from pre [of ?m] n have t: "?ps3 ! ?m = last ?ps"
    by (simp add: nth_append last_conv_nth ne)
  have tkn: "take ?n ?ps3 = ?ps"
    using tk by (metis append_eq_conv_conj length_take min.absorb2 n3 less_imp_le take_take
                       take_Suc_conv_app_nth butlast_snoc butlast_take diff_Suc_1 length_append_singleton)
  note at = attach_group_Inr [OF a s(8) n(1) n3 g s(1)]
  from n n3 have "?ps3 ! ?m \<in> set ?ps3" "?ps3 ! ?n \<in> set ?ps3" by simp_all
  then have tl: "?ps3 ! ?m < length ?h" and gl: "grp < length ?h"
    using s(9) g by auto
  from sorted_wrt_nth_less [OF s(8) _ n3, of ?m] n g have lt: "?ps3 ! ?m < grp" by simp
  then have ne': "?ps3 ! ?m \<noteq> grp" by simp
  have ps': "parents st' = ?ps3" and ix': "indexes st' = (indexes st3)[?m := r']"
    and ss': "length (structures st') = length (structures st3)"
    and h': "heap st' = set_parent ?h grp (?ps3 ! ?m)"
    using at by simp_all
  note ch = set_parent_children [OF tl gl ne', folded h']
  have c: "(GroupChild grp = SegmentChild seg \<and> Suc ?m = length ?ps3)
            \<or> (GroupChild grp = GroupChild (?ps3 ! Suc ?m) \<and> Suc ?m < length ?ps3)"
    using n n3 g by simp
  have cs: "child_segments ?h (?ps3 ! ?m) (GroupChild grp) = [seg]"
    using lt sg by (simp add: child_segments_def)
  show ?thesis
  proof (cases "l < ?n")
    case True
    then have lm: "l \<le> ?m" by simp
    from r n have r3: "reg l (Suc ?m) st3 d" by simp
    from reg_add_child_fresh [OF r3 lm ps' ix' ss' ch(1) ch(2) c]
    have "reg l ?m st' d" "segments_of (heap st') (?ps3 ! ?m) = [seg]"
      using cs by simp_all
    with True at(1) ps' t tkn show ?thesis by (simp add: post_def)
  next
    case False
    with l have "l = ?n" by simp
    with r n have r3: "reg (Suc ?m) (Suc ?m) st3 d" by simp
    have ixl: "length (indexes st') = length (indexes st3)" by (simp add: ix')
    from reg_add_child_linked [OF r3 ps' ixl ss' ch(1) ch(2) c]
    have "reg (length ?ps3) (length ?ps3) st' (d @ [seg])" using cs by simp
    with False at(1) ps' show ?thesis by (simp add: post_def)
  qed
qed

lemma post_cong:
  "parents st = parents st0 \<Longrightarrow> post l st seg d r st' = post l st0 seg d r st'"
  by (simp add: post_def)

lemma post_unchanged:
  assumes r: "reg l (length (parents st)) st d"
  shows "post l st seg d (- 1) st"
proof (cases "l < length (parents st)")
  case True
  with r show ?thesis by (simp add: post_def)
next
  case False
  with shapeD(3) [OF regD(1) [OF r]] have "l = length (parents st)" by simp
  with r have "reg (length (parents st)) (length (parents st)) st d" by simp
  then have "\<exists>j \<le> length (parents st). reg j j st d \<and> parents st = take j (parents st)"
    by (intro exI [of _ "length (parents st)"]) simp
  with False show ?thesis by (simp add: post_def)
qed

lemma post_retry:
  assumes gb: "go_back st = Inr st1"
    and ln: "l = length (parents st)"
    and p: "post (length (parents st1)) st1 seg d r st'"
  shows "post l st seg d r st'"
proof -
  let ?n = "length (parents st)"
  note g = go_back_Inr [OF gb]
  from g(1) have n: "0 < ?n" by simp
  have n1: "length (parents st1) = ?n - 1" by (simp add: g(4))
  have tk: "take j (parents st1) = take j (parents st)" if "j \<le> ?n - 1" for j
  proof -
    from that n have "j < ?n" by linarith
    then show ?thesis by (simp add: g(4) take_butlast)
  qed
  from p have p1: "r = - 1 \<longrightarrow> (\<exists>j \<le> ?n - 1. reg j j st' d \<and> parents st' = take j (parents st1))"
    and p2: "0 \<le> r \<longrightarrow> reg (length (parents st')) (length (parents st')) st' (d @ [seg])"
    by (simp_all add: post_def n1)
  have "r = - 1 \<longrightarrow> (\<exists>j \<le> ?n. reg j j st' d \<and> parents st' = take j (parents st))"
  proof
    assume "r = - 1"
    with p1 obtain j where j: "j \<le> ?n - 1" "reg j j st' d" "parents st' = take j (parents st1)"
      by blast
    from j(1) have "j \<le> ?n" by simp
    with j tk [OF j(1)] show "\<exists>j \<le> ?n. reg j j st' d \<and> parents st' = take j (parents st)"
      by auto
  qed
  with p2 ln show "post l st seg d r st'" by (simp add: post_def)
qed

lemma find_group_post:
  "reg l (length (parents st)) st d \<Longrightarrow> find_group segment st = Inr (r, st')
     \<Longrightarrow> post l st segment d r st'"
  "reg l (length (parents st)) st d \<Longrightarrow> parents st \<noteq> []
     \<Longrightarrow> find_group_groups segment str groups st = Inr (r, st')
     \<Longrightarrow> post l st segment d r st'"
proof (induction segment st and segment str groups st arbitrary: l d r st' and l d r st'
       rule: find_group_induct)
  case (find segment st)
  note r = find.prems(1)
  note s = shapeD [OF regD(1) [OF r]]
  from find.prems(2) have ne: "indexes st \<noteq> []" "structures st \<noteq> []"
    unfolding find_group_cases [of segment st] by (auto split: if_splits)
  with s(1) have pne: "parents st \<noteq> []" by auto
  show ?case
  proof (cases "index_of (seg_name segment) (structure_keys (last (structures st)))")
    case None
    with find.prems(2) ne
    have "find_group_groups segment (last (structures st))
            (structure_groups (last (structures st))) st = Inr (r, st')"
      unfolding find_group_cases [of segment st] by simp
    from find.IH(1) [OF ne None r pne this] show ?thesis .
  next
    case (Some k)
    show ?thesis
    proof (cases "int k \<le> last (indexes st)
                  \<and> snd (slot_repetitions (last (structures st) ! k)) = 1")
      case True
      with find.prems(2) ne Some obtain st1 where gb: "go_back st = Inr st1"
        and f: "find_group segment st1 = Inr (r, st')"
        unfolding find_group_cases [of segment st] by (auto split: sum.splits)
      from True have c1: "int k \<le> last (indexes st)"
        and c2: "snd (slot_repetitions (last (structures st) ! k)) = 1" by simp_all
      note r1 = reg_retry [OF r ne(1) c1 gb]
      note ln = retry_whole_stack [OF r ne(1) c1]
      from find.IH(2) [OF ne Some c1 c2 gb r1 f]
      have "post (length (parents st1)) st1 segment d r st'" .
      from post_retry [OF gb ln this] show ?thesis .
    next
      case False
      with find.prems(2) ne Some pne
      have "r = int k" "st' = st\<lparr>indexes := butlast (indexes st) @ [int k],
                                 heap := add_segment (heap st) (last (parents st)) segment\<rparr>"
        unfolding find_group_cases [of segment st] by (auto split: if_splits)
      with post_direct [OF r pne] show ?thesis by simp
    qed
  qed
next
  case (groups_Nil segment str st)
  from groups_Nil.prems(3) have "r = - 1" "st' = st" by simp_all
  with post_unchanged [OF groups_Nil.prems(1)] show ?case by simp
next
  case (groups_Cons segment str g groups st)
  note r = groups_Cons.prems(1) and pne = groups_Cons.prems(2)
  note s = shapeD [OF regD(1) [OF r]]
  let ?n = "length (parents st)"
  let ?grp = "length (heap st)"
  let ?st2 = "push_group st g"
  have ps2: "parents ?st2 = parents st @ [?grp]" by (simp add: push_group_def)
  from groups_Cons.prems(3) obtain r1 st3 where f: "find_group segment ?st2 = Inr (r1, st3)"
    unfolding find_group_groups_Cons by (auto split: sum.splits)
  from reg_push [OF r pne] have r2: "reg l (length (parents ?st2)) ?st2 d"
    by (simp add: ps2)
  from groups_Cons.IH(1) [OF r2 f] have p: "post l ?st2 segment d r1 st3" .
  from s(3) have l: "l < length (parents ?st2)" by (simp add: ps2)
  show ?case
  proof (cases "- 1 < r1")
    case True
    with groups_Cons.prems(3) f have a: "attach_group str g ?grp st3 = Inr (r, st')"
      unfolding find_group_groups_Cons by simp
    from p l True have r3: "reg l ?n st3 d"
      and tk: "take (Suc ?n) (parents st3) = parents st @ [?grp]"
      and sg: "segments_of (heap st3) ?grp = [segment]"
      by (simp_all add: post_def ps2)
    from post_attach [OF r3 pne s(3) tk sg a] show ?thesis .
  next
    case False
    with find_group_result_ge(1) [OF f] have r1: "r1 = - 1" by simp
    from groups_Cons.prems(3) f False obtain st4 where gb: "go_back st3 = Inr st4"
      and fg: "find_group_groups segment str groups st4 = Inr (r, st')"
      unfolding find_group_groups_Cons by (auto split: sum.splits)
    from p l r1 have r3: "reg l (Suc ?n) st3 d" and ps3: "parents st3 = parents st @ [?grp]"
      by (simp_all add: post_def ps2)
    from r3 ps3 have r3': "reg l (length (parents st3)) st3 d" by simp
    note g = go_back_Inr [OF gb]
    have ps4: "parents st4 = parents st" by (simp add: g(4) ps3)
    from reg_pop [OF r3' gb] s(3) have r4: "reg l (length (parents st4)) st4 d"
      by (simp add: ps3 ps4 min_def)
    from pne ps4 have pne4: "parents st4 \<noteq> []" by simp
    from groups_Cons.IH(2) [OF f False gb r4 pne4 fg]
    have "post l st4 segment d r st'" .
    with post_cong [OF ps4] show ?thesis by simp
  qed
qed

subsection \<open>Every attachment in the store\<close>

text \<open>
  The child entries of all the nodes of the store, reachable or not: the segments
  among them, and the addresses of the groups among them.
\<close>

fun segment_of :: "child \<Rightarrow> segment list" where
  "segment_of (SegmentChild s) = [s]"
| "segment_of (GroupChild b) = []"

fun group_of :: "child \<Rightarrow> nat list" where
  "group_of (SegmentChild s) = []"
| "group_of (GroupChild b) = [b]"

definition all_children :: "store \<Rightarrow> child list" where
  "all_children h = concat (map el_children h)"

definition placed_segments :: "store \<Rightarrow> segment list" where
  "placed_segments h = concat (map segment_of (all_children h))"

definition placed_groups :: "store \<Rightarrow> nat list" where
  "placed_groups h = concat (map group_of (all_children h))"

text \<open>
  The segments attached anywhere in the store are those of \<open>d\<close>, each as many times
  as it occurs there, and no group is the child of two nodes or twice the child of
  one.
\<close>

definition tidy :: "store \<Rightarrow> segment list \<Rightarrow> bool" where
  "tidy h d = (mset (placed_segments h) = mset d \<and> distinct (placed_groups h))"

lemma concat_update_mset:
  "t < length xss \<Longrightarrow>
     mset (concat (map g (concat (xss[t := xss ! t @ [c]]))))
       = mset (g c) + mset (concat (map g (concat xss)))"
proof (induction xss arbitrary: t)
  case Nil
  then show ?case by simp
next
  case (Cons xs xss)
  then show ?case by (cases t) simp_all
qed

lemma children_update:
  assumes "length h' = length h" and "t < length h"
    and "\<forall>x < length h. el_children (h' ! x) =
           (if x = t then el_children (h ! x) @ [c] else el_children (h ! x))"
  shows "map el_children h' = (map el_children h)[t := map el_children h ! t @ [c]]"
  using assms by (intro nth_equalityI) (simp_all add: nth_list_update)

lemma placed_add_child:
  assumes "length h' = length h" and "t < length h"
    and "\<forall>x < length h. el_children (h' ! x) =
           (if x = t then el_children (h ! x) @ [c] else el_children (h ! x))"
  shows "mset (placed_segments h') = mset (segment_of c) + mset (placed_segments h)"
    and "mset (placed_groups h') = mset (group_of c) + mset (placed_groups h)"
proof -
  from assms(2) have t: "t < length (map el_children h)" by simp
  note u = children_update [OF assms]
  show "mset (placed_segments h') = mset (segment_of c) + mset (placed_segments h)"
    unfolding placed_segments_def all_children_def u by (rule concat_update_mset [OF t])
  show "mset (placed_groups h') = mset (group_of c) + mset (placed_groups h)"
    unfolding placed_groups_def all_children_def u by (rule concat_update_mset [OF t])
qed

lemma placed_groups_iff:
  "b \<in> set (placed_groups h) \<longleftrightarrow> (\<exists>a < length h. GroupChild b \<in> set (el_children (h ! a)))"
proof
  assume "b \<in> set (placed_groups h)"
  then obtain c e where "e \<in> set h" "c \<in> set (el_children e)" "b \<in> set (group_of c)"
    by (auto simp: placed_groups_def all_children_def)
  moreover from this(3) have "c = GroupChild b" by (cases c) simp_all
  ultimately show "\<exists>a < length h. GroupChild b \<in> set (el_children (h ! a))"
    by (auto simp: in_set_conv_nth)
next
  assume "\<exists>a < length h. GroupChild b \<in> set (el_children (h ! a))"
  then obtain a where "a < length h" "GroupChild b \<in> set (el_children (h ! a))" by blast
  then have "h ! a \<in> set h" "GroupChild b \<in> set (el_children (h ! a))"
    "b \<in> set (group_of (GroupChild b))" by simp_all
  then show "b \<in> set (placed_groups h)"
    unfolding placed_groups_def all_children_def by (auto intro!: bexI)
qed

lemma tidy_add_segment:
  assumes "tidy h d" and "length h' = length h" and "t < length h"
    and "\<forall>x < length h. el_children (h' ! x) =
           (if x = t then el_children (h ! x) @ [SegmentChild seg] else el_children (h ! x))"
  shows "tidy h' (d @ [seg])"
proof -
  note p = placed_add_child [OF assms(2-4)]
  from p(2) have "mset (placed_groups h') = mset (placed_groups h)" by simp
  from mset_eq_imp_distinct_iff [OF this] assms(1) p(1) show ?thesis by (simp add: tidy_def)
qed

lemma tidy_add_group:
  assumes "tidy h d" and "length h' = length h" and "t < length h"
    and "\<forall>x < length h. el_children (h' ! x) =
           (if x = t then el_children (h ! x) @ [GroupChild b] else el_children (h ! x))"
    and "\<forall>a < length h. GroupChild b \<notin> set (el_children (h ! a))"
  shows "tidy h' d"
proof -
  note p = placed_add_child [OF assms(2-4)]
  from assms(5) have nb: "b \<notin> set (placed_groups h)" by (simp add: placed_groups_iff)
  from p(2) have "mset (placed_groups h') = mset (b # placed_groups h)" by simp
  from mset_eq_imp_distinct_iff [OF this] assms(1) nb p(1) show ?thesis by (simp add: tidy_def)
qed

lemma tidy_push_group:
  "tidy (heap (push_group st g)) d = tidy (heap st) d"
  by (simp add: tidy_def placed_segments_def placed_groups_def all_children_def
                push_group_def new_group_def)

lemma attach_group_children:
  assumes r: "reg l (length (parents st)) st3 d" and ne: "parents st \<noteq> []"
    and l: "l \<le> length (parents st)"
    and tk: "take (Suc (length (parents st))) (parents st3) = parents st @ [grp]"
    and a: "attach_group str g grp st3 = Inr (r', st')"
  shows "length (heap st') = length (heap st3)"
    and "last (parents st) < length (heap st3)"
    and "\<forall>x < length (heap st3). el_children (heap st' ! x) =
           (if x = last (parents st) then el_children (heap st3 ! x) @ [GroupChild grp]
            else el_children (heap st3 ! x))"
    and "\<forall>a < length (heap st3). GroupChild grp \<notin> set (el_children (heap st3 ! a))"
    and "0 \<le> r'"
proof -
  let ?ps = "parents st" and ?ps3 = "parents st3" and ?h = "heap st3"
  let ?n = "length ?ps"
  let ?m = "?n - 1"
  note s = shapeD [OF regD(1) [OF r]]
  from ne have n: "0 < ?n" "Suc ?m = ?n" by simp_all
  from tk have n3: "?n < length ?ps3"
    by (metis length_append_singleton length_take lessI min_less_iff_conj)
  from tk have pre: "?ps3 ! i = (?ps @ [grp]) ! i" if "i < Suc ?n" for i
    using that by (metis nth_take)
  from pre [of ?n] have g: "?ps3 ! ?n = grp" by simp
  from pre [of ?m] n have t: "?ps3 ! ?m = last ?ps"
    by (simp add: nth_append last_conv_nth ne)
  note at = attach_group_Inr [OF a s(8) n(1) n3 g s(1)]
  from n n3 have "?ps3 ! ?m \<in> set ?ps3" and gin: "?ps3 ! ?n \<in> set ?ps3" by simp_all
  then have tl: "?ps3 ! ?m < length ?h" and gl: "grp < length ?h"
    using s(9) g by auto
  from sorted_wrt_nth_less [OF s(8) _ n3, of ?m] n g have lt: "?ps3 ! ?m < grp" by simp
  then have ne': "?ps3 ! ?m \<noteq> grp" by simp
  have h': "heap st' = set_parent ?h grp (?ps3 ! ?m)" using at by simp
  note ch = set_parent_children [OF tl gl ne', folded h']
  from ch(1) show "length (heap st') = length ?h" .
  from tl t show "last ?ps < length ?h" by simp
  from ch(2) t show "\<forall>x < length ?h. el_children (heap st' ! x) =
           (if x = last ?ps then el_children (?h ! x) @ [GroupChild grp]
            else el_children (?h ! x))" by simp
  show "\<forall>a < length ?h. GroupChild grp \<notin> set (el_children (?h ! a))"
  proof (intro allI impI notI)
    fix a
    assume al: "a < length ?h" and c: "GroupChild grp \<in> set (el_children (?h ! a))"
    from gin g have "grp \<in> set ?ps3" by simp
    from refsD [OF regD(5) [OF r] al this c] obtain i where
      i: "linked_at l ?n (length ?ps3) i" "?ps3 ! Suc i = grp" by blast
    from i(1) have si: "Suc i < length ?ps3" by (simp add: linked_at_def)
    from sorted_nth_eq [OF s(8) si n3] i(2) g have "Suc i = ?n" by simp
    with i(1) l show False by (auto simp: linked_at_def)
  qed
  from at(1) show "0 \<le> r'" .
qed

lemma find_group_tidy:
  "reg l (length (parents st)) st d \<Longrightarrow> tidy (heap st) e
     \<Longrightarrow> find_group segment st = Inr (r, st')
     \<Longrightarrow> tidy (heap st') (if r = - 1 then e else e @ [segment])"
  "reg l (length (parents st)) st d \<Longrightarrow> tidy (heap st) e \<Longrightarrow> parents st \<noteq> []
     \<Longrightarrow> find_group_groups segment str groups st = Inr (r, st')
     \<Longrightarrow> tidy (heap st') (if r = - 1 then e else e @ [segment])"
proof (induction segment st and segment str groups st arbitrary: l d r st' and l d r st'
       rule: find_group_induct)
  case (find segment st)
  note r = find.prems(1) and t = find.prems(2)
  note s = shapeD [OF regD(1) [OF r]]
  from find.prems(3) have ne: "indexes st \<noteq> []" "structures st \<noteq> []"
    unfolding find_group_cases [of segment st] by (auto split: if_splits)
  with s(1) have pne: "parents st \<noteq> []" by auto
  show ?case
  proof (cases "index_of (seg_name segment) (structure_keys (last (structures st)))")
    case None
    with find.prems(3) ne
    have "find_group_groups segment (last (structures st))
            (structure_groups (last (structures st))) st = Inr (r, st')"
      unfolding find_group_cases [of segment st] by simp
    from find.IH(1) [OF ne None r t pne this] show ?thesis .
  next
    case (Some k)
    show ?thesis
    proof (cases "int k \<le> last (indexes st)
                  \<and> snd (slot_repetitions (last (structures st) ! k)) = 1")
      case True
      with find.prems(3) ne Some obtain st1 where gb: "go_back st = Inr st1"
        and f: "find_group segment st1 = Inr (r, st')"
        unfolding find_group_cases [of segment st] by (auto split: sum.splits)
      from True have c1: "int k \<le> last (indexes st)"
        and c2: "snd (slot_repetitions (last (structures st) ! k)) = 1" by simp_all
      note r1 = reg_retry [OF r ne(1) c1 gb]
      from t go_back_Inr(7) [OF gb] have t1: "tidy (heap st1) e" by simp
      from find.IH(2) [OF ne Some c1 c2 gb r1 t1 f] show ?thesis .
    next
      case False
      with find.prems(3) ne Some pne
      have rk: "r = int k" and st': "st' = st\<lparr>indexes := butlast (indexes st) @ [int k],
                                 heap := add_segment (heap st) (last (parents st)) segment\<rparr>"
        unfolding find_group_cases [of segment st] by (auto split: if_splits)
      from pne have "last (parents st) \<in> set (parents st)" by simp
      then have tl: "last (parents st) < length (heap st)" by (rule s(9))
      note ch = add_segment_children [OF tl, of segment]
      from tidy_add_segment [OF t ch(1) tl ch(2)] rk st' show ?thesis by simp
    qed
  qed
next
  case (groups_Nil segment str st)
  from groups_Nil.prems(4) have "r = - 1" "st' = st" by simp_all
  with groups_Nil.prems(2) show ?case by simp
next
  case (groups_Cons segment str g groups st)
  note r = groups_Cons.prems(1) and t = groups_Cons.prems(2) and pne = groups_Cons.prems(3)
  note s = shapeD [OF regD(1) [OF r]]
  let ?n = "length (parents st)"
  let ?grp = "length (heap st)"
  let ?st2 = "push_group st g"
  have ps2: "parents ?st2 = parents st @ [?grp]" by (simp add: push_group_def)
  from groups_Cons.prems(4) obtain r1 st3 where f: "find_group segment ?st2 = Inr (r1, st3)"
    unfolding find_group_groups_Cons by (auto split: sum.splits)
  from reg_push [OF r pne] have r2: "reg l (length (parents ?st2)) ?st2 d"
    by (simp add: ps2)
  from t have t2: "tidy (heap ?st2) e" by (simp add: tidy_push_group)
  from find_group_post(1) [OF r2 f] have p: "post l ?st2 segment d r1 st3" .
  from groups_Cons.IH(1) [OF r2 t2 f]
  have t3: "tidy (heap st3) (if r1 = - 1 then e else e @ [segment])" .
  from s(3) have l: "l < length (parents ?st2)" by (simp add: ps2)
  show ?case
  proof (cases "- 1 < r1")
    case True
    with groups_Cons.prems(4) f have a: "attach_group str g ?grp st3 = Inr (r, st')"
      unfolding find_group_groups_Cons by simp
    from p l True have r3: "reg l ?n st3 d"
      and tk: "take (Suc ?n) (parents st3) = parents st @ [?grp]"
      by (simp_all add: post_def ps2)
    from t3 True have t3': "tidy (heap st3) (e @ [segment])" by simp
    note ac = attach_group_children [OF r3 pne s(3) tk a]
    from tidy_add_group [OF t3' ac(1) ac(2) ac(3) ac(4)] ac(5) show ?thesis by simp
  next
    case False
    with find_group_result_ge(1) [OF f] have r1: "r1 = - 1" by simp
    from groups_Cons.prems(4) f False obtain st4 where gb: "go_back st3 = Inr st4"
      and fg: "find_group_groups segment str groups st4 = Inr (r, st')"
      unfolding find_group_groups_Cons by (auto split: sum.splits)
    from p l r1 have r3: "reg l (Suc ?n) st3 d" and ps3: "parents st3 = parents st @ [?grp]"
      by (simp_all add: post_def ps2)
    from r3 ps3 have r3': "reg l (length (parents st3)) st3 d" by simp
    note g = go_back_Inr [OF gb]
    have ps4: "parents st4 = parents st" by (simp add: g(4) ps3)
    from reg_pop [OF r3' gb] s(3) have r4: "reg l (length (parents st4)) st4 d"
      by (simp add: ps3 ps4 min_def)
    from pne ps4 have pne4: "parents st4 \<noteq> []" by simp
    from t3 r1 g(7) have t4: "tidy (heap st4) e" by simp
    from groups_Cons.IH(2) [OF f False gb r4 t4 pne4 fg] show ?thesis .
  qed
qed

subsection \<open>The loop over the segments\<close>

text \<open>
  Between two segments the whole stack is attached, or empty; the tree under the
  message holds the segments placed so far, in order, and the store holds no
  other attachment.
\<close>

definition attached :: "state \<Rightarrow> segment list \<Rightarrow> bool" where
  "attached st d =
     (reg (length (parents st)) (length (parents st)) st d \<and> tidy (heap st) d)"

lemma attached_initial_state:
  assumes "el_children message = []"
  shows "attached (initial_state message str) []"
proof -
  let ?st = "initial_state message str"
  have h: "heap ?st = [message]" and ps: "parents ?st = [0]"
    by (simp_all add: initial_state_def)
  have "shape 1 1 ?st" by (simp add: shape_def initial_state_def)
  moreover have "wf_store (heap ?st)" using assms by (simp add: wf_store_def h)
  moreover have "links 1 1 (parents ?st) (heap ?st)" by (simp add: links_def linked_at_def ps)
  moreover have "fresh 1 1 ?st" by (simp add: fresh_def)
  moreover have "refs 1 1 (parents ?st) (heap ?st)" using assms by (simp add: refs_def h)
  moreover have "segments_of (heap ?st) 0 = []"
    using assms by (simp add: segments_of_unfold h)
  ultimately have "reg 1 1 ?st []" by (simp add: reg_def)
  moreover have "tidy (heap ?st) []"
    using assms by (simp add: tidy_def placed_segments_def placed_groups_def all_children_def h)
  ultimately show ?thesis by (simp add: attached_def ps)
qed

lemma attached_add_to_message:
  assumes a: "attached st d" and e: "parents st = []"
  shows "attached (st\<lparr>heap := add_segment (heap st) 0 c\<rparr>) (d @ [c])"
proof -
  let ?h = "heap st"
  let ?st' = "st\<lparr>heap := add_segment ?h 0 c\<rparr>"
  from a e have r: "reg 0 0 st d" by (simp add: attached_def)
  note s = shapeD [OF regD(1) [OF r]]
  from s(7) have z: "0 < length ?h" by simp
  note ch = add_segment_children [OF z, of c]
  have "shape 0 0 ?st'" using s(1,2,7) e ch(1) by (auto simp: shape_def)
  moreover have "wf_store (heap ?st')"
    unfolding wf_store_def
  proof (intro allI impI)
    fix a b
    assume al: "a < length (heap ?st')" and g: "GroupChild b \<in> set (el_children (heap ?st' ! a))"
    from al ch(1) have al': "a < length ?h" by simp
    with ch(2) g have "GroupChild b \<in> set (el_children (?h ! a))"
      by (auto split: if_splits)
    from wf_storeD [OF regD(2) [OF r] al' this] ch(1)
    show "a < b \<and> b < length (heap ?st')" by simp
  qed
  moreover have "links 0 0 (parents ?st') (heap ?st')" by (simp add: links_def linked_at_def e)
  moreover have "fresh 0 0 ?st'" by (simp add: fresh_def)
  moreover have "refs 0 0 (parents ?st') (heap ?st')" by (simp add: refs_def e)
  moreover have "segments_of (heap ?st') 0 = d @ [c]"
  proof -
    have "segments_of (add_segment ?h 0 c) 0
            = segments_of ?h 0 @ child_segments ?h 0 (SegmentChild c)"
      by (rule segments_of_add_child [OF ch(1) z ch(2)])
    with regD(6) [OF r] show ?thesis by (simp add: child_segments_def)
  qed
  ultimately have "reg 0 0 ?st' (d @ [c])" by (simp add: reg_def)
  moreover from a have "tidy ?h d" by (simp add: attached_def)
  from tidy_add_segment [OF this ch(1) z ch(2)] have "tidy (heap ?st') (d @ [c])" by simp
  ultimately show ?thesis using e by (simp add: attached_def)
qed

lemma attached_find_group:
  assumes a: "attached st d" and f: "find_group c st = Inr (r, st')"
  shows "r = - 1 \<Longrightarrow> attached st' d" and "r \<noteq> - 1 \<Longrightarrow> attached st' (d @ [c])"
proof -
  from a have r: "reg (length (parents st)) (length (parents st)) st d"
    and t: "tidy (heap st) d" by (simp_all add: attached_def)
  note t' = find_group_tidy(1) [OF r t f]
  from find_group_post(1) [OF r f]
  have p1: "r = - 1 \<longrightarrow> (\<exists>j \<le> length (parents st). reg j j st' d \<and> parents st' = take j (parents st))"
    and p2: "0 \<le> r \<longrightarrow> reg (length (parents st')) (length (parents st')) st' (d @ [c])"
    by (simp_all add: post_def)
  show "attached st' d" if "r = - 1"
  proof -
    from p1 that obtain j where j: "j \<le> length (parents st)" "reg j j st' d"
      "parents st' = take j (parents st)" by blast
    from j(1,3) have "length (parents st') = j" by simp
    with j(2) t' that show ?thesis by (simp add: attached_def)
  qed
  show "attached st' (d @ [c])" if "r \<noteq> - 1"
  proof -
    from find_group_result_ge(1) [OF f] that have "0 \<le> r" by simp
    with p2 t' that show ?thesis by (simp add: attached_def)
  qed
qed

lemma attached_go_back:
  assumes a: "attached st d" and gb: "go_back st = Inr st'"
  shows "attached st' d"
proof -
  from a have r: "reg (length (parents st)) (length (parents st)) st d"
    and t: "tidy (heap st) d" by (simp_all add: attached_def)
  note g = go_back_Inr [OF gb]
  from reg_pop [OF r gb] t show ?thesis by (simp add: attached_def g(4) g(7))
qed

lemma attached_search_levels:
  "attached st d \<Longrightarrow> search_levels n c st = Inr (r, st') \<Longrightarrow>
     (r = - 1 \<longrightarrow> attached st' d) \<and> (r \<noteq> - 1 \<longrightarrow> attached st' (d @ [c]))"
proof (induction n arbitrary: st)
  case 0
  then show ?case by simp
next
  case (Suc n)
  from Suc.prems(2) obtain r1 st1 where f: "find_group c st = Inr (r1, st1)"
    by (auto split: sum.splits)
  note af = attached_find_group [OF Suc.prems(1) f]
  show ?case
  proof (cases "r1 = - 1")
    case True
    with Suc.prems(2) f obtain st2 where gb: "go_back st1 = Inr st2"
      and sl: "search_levels n c st2 = Inr (r, st')"
      by (auto split: sum.splits)
    from attached_go_back [OF af(1) [OF True] gb] have "attached st2 d" .
    from Suc.IH [OF this sl] show ?thesis .
  next
    case False
    with Suc.prems(2) f have "r = r1" "st' = st1" by simp_all
    with af(2) [OF False] False show ?thesis by simp
  qed
qed

lemma attached_place_segment:
  assumes a: "attached st d" and p: "place_segment c st = Inr (r, st')"
  shows "attached st' (d @ [c])"
proof -
  from p obtain r1 st1 where sl: "search_levels (length (structures st)) c st = Inr (r1, st1)"
    by (auto simp: place_segment_def split: sum.splits)
  note as = attached_search_levels [OF a sl]
  show ?thesis
  proof (cases "r1 = - 1")
    case True
    with p sl have r: "r = - 1" and st': "st' = st1\<lparr>heap := add_segment (heap st1) 0 c\<rparr>"
      by (simp_all add: place_segment_def)
    from place_segment_unplaced_empty [OF p [unfolded r]] have "structures st' = []" .
    then have e: "structures st1 = []" by (simp add: st')
    from as True have a1: "attached st1 d" by simp
    then have "shape (length (parents st1)) (length (parents st1)) st1"
      by (simp add: attached_def reg_def)
    from shapeD(2) [OF this] e have "parents st1 = []" by simp
    from attached_add_to_message [OF a1 this] show ?thesis by (simp add: st')
  next
    case False
    with p sl have "st' = st1" by (simp add: place_segment_def)
    with as False show ?thesis by simp
  qed
qed

lemma attached_create_groups_loop:
  "attached st d \<Longrightarrow> create_groups_loop children st = Inr st' \<Longrightarrow> attached st' (d @ children)"
proof (induction children arbitrary: st d)
  case Nil
  then show ?case by simp
next
  case (Cons c children)
  from Cons.prems(2) obtain r st1 where p: "place_segment c st = Inr (r, st1)"
    and l: "create_groups_loop children st1 = Inr st'"
    by (auto split: sum.splits)
  from Cons.IH [OF attached_place_segment [OF Cons.prems(1) p] l] show ?case by simp
qed

lemma create_groups_attached:
  assumes "create_groups message str children = Inr st" and "el_children message = []"
  shows "attached st children"
proof -
  from assms(1) have "create_groups_loop children (initial_state message str) = Inr st"
    by (simp add: create_groups_def)
  from attached_create_groups_loop [OF attached_initial_state [OF assms(2)] this]
  show ?thesis by simp
qed

text \<open>
  Claim C2. After \<^verbatim>\<open>create_groups\<close> has finished on a message without children
  (\<^verbatim>\<open>parse_message\<close> empties them first, line 66) and a list of segments, every
  segment of the list hangs under exactly one parent of the tree, none is duplicated
  and none is dropped: the tree under the message holds exactly the segments of the
  list, in the order of the list; these are all the segments attached to any node
  of the store; no group is attached twice; and every group child is a node of the
  store created after its parent.
\<close>

theorem create_groups_places_each_segment_once:
  "create_groups message str children = Inr st \<Longrightarrow> el_children message = [] \<Longrightarrow>
     segments_of (heap st) 0 = children
     \<and> mset (placed_segments (heap st)) = mset children
     \<and> distinct (placed_groups (heap st))
     \<and> wf_store (heap st)"
proof -
  assume "create_groups message str children = Inr st" "el_children message = []"
  then have "attached st children" by (rule create_groups_attached)
  then show ?thesis by (simp add: attached_def reg_def tidy_def)
qed

definition example_children :: "segment list" where
  "example_children =
     map example_segment [''MSH'', ''PID'', ''PV1'', ''ORC'', ''OBX'', ''OBX'']"

definition example_tree :: store where
  "example_tree =
     [\<lparr>el_name = ''OML_O33'',
       el_children = [SegmentChild (example_segment ''MSH''), GroupChild 1, GroupChild 6],
       el_parent = None\<rparr>,
      \<lparr>el_name = ''PATIENT'',
       el_children = [SegmentChild (example_segment ''PID''), GroupChild 2],
       el_parent = Some 0\<rparr>,
      \<lparr>el_name = ''VISIT'',
       el_children = [SegmentChild (example_segment ''PV1'')],
       el_parent = Some 1\<rparr>,
      \<lparr>el_name = ''VISIT'', el_children = [], el_parent = None\<rparr>,
      \<lparr>el_name = ''PATIENT'', el_children = [], el_parent = None\<rparr>,
      \<lparr>el_name = ''VISIT'', el_children = [], el_parent = None\<rparr>,
      \<lparr>el_name = ''ORDER'',
       el_children = [SegmentChild (example_segment ''ORC''), GroupChild 7, GroupChild 8],
       el_parent = Some 0\<rparr>,
      \<lparr>el_name = ''OBSERVATION'',
       el_children = [SegmentChild (example_segment ''OBX'')],
       el_parent = Some 6\<rparr>,
      \<lparr>el_name = ''OBSERVATION'',
       el_children = [SegmentChild (example_segment ''OBX'')],
       el_parent = Some 6\<rparr>]"

definition example_result :: state where
  "example_result =
     \<lparr>parents = [0, 6, 8], indexes = [2, 1, 0],
      structures = [example_structure,
                    slot_structure (example_structure ! 2),
                    slot_structure (slot_structure (example_structure ! 2) ! 1)],
      heap = example_tree\<rparr>"

theorem create_groups_places_each_segment_once_witness:
  "create_groups example_message example_structure example_children = Inr example_result
   \<and> el_children example_message = []
   \<and> segments_of example_tree 0 = example_children
   \<and> mset (placed_segments example_tree) = mset example_children
   \<and> distinct (placed_groups example_tree)
   \<and> wf_store example_tree
   \<and> placed_groups example_tree = [1, 6, 2, 7, 8]"
proof -
  have c: "create_groups example_message example_structure example_children = Inr example_result"
    by code_simp
  have e: "el_children example_message = []" by (simp add: example_message_def)
  have h: "heap example_result = example_tree" by (simp add: example_result_def)
  have g: "placed_groups example_tree = [1, 6, 2, 7, 8]" by code_simp
  from create_groups_places_each_segment_once [OF c e] c e g show ?thesis
    unfolding h by blast
qed

section \<open>Properties of the decomposition stages\<close>

lemma digit_char_no_underscore: "d < 10 \<Longrightarrow> digit_char d \<noteq> CHR ''_''"
proof -
  assume "d < 10"
  then have "d \<in> {0, 1, 2, 3, 4, 5, 6, 7, 8, 9}" by auto
  then show ?thesis by (auto simp: digit_char_def)
qed

lemma string_of_nat_no_underscore: "CHR ''_'' \<notin> set (string_of_nat n)"
proof (induction n rule: string_of_nat.induct)
  case (1 n)
  show ?case
  proof (cases "n < 10")
    case True
    then show ?thesis
      using digit_char_no_underscore [of n] by (subst string_of_nat.simps) auto
  next
    case False
    with 1 have "CHR ''_'' \<notin> set (string_of_nat (n div 10))" by simp
    moreover have "digit_char (n mod 10) \<noteq> CHR ''_''"
      by (rule digit_char_no_underscore) simp
    ultimately show ?thesis using False
      by (subst string_of_nat.simps) auto
  qed
qed

lemma string_of_nat_ne: "string_of_nat n \<noteq> []"
  by (subst string_of_nat.simps) simp

lemma string_of_nat_one: "string_of_nat n = ''1'' \<longleftrightarrow> n = 1"
proof
  assume a: "string_of_nat n = ''1''"
  show "n = 1"
  proof (cases "n < 10")
    case True
    then have "n \<in> {0, 1, 2, 3, 4, 5, 6, 7, 8, 9}" by auto
    with a show ?thesis
      by (subst (asm) string_of_nat.simps) (auto simp: digit_char_def)
  next
    case False
    with a have "string_of_nat (n div 10) @ [digit_char (n mod 10)] = ''1''"
      by (subst (asm) string_of_nat.simps) simp
    then have "string_of_nat (n div 10) = []" by (simp add: append_eq_Cons_conv)
    with string_of_nat_ne show ?thesis by blast
  qed
next
  assume "n = 1"
  then show "string_of_nat n = ''1''"
    by (simp add: string_of_nat.simps digit_char_def)
qed

lemma takeWhile_until:
  "x \<notin> set xs \<Longrightarrow> takeWhile (\<lambda>c. c \<noteq> x) (xs @ x # ys) = xs"
  by (induction xs) auto

lemma split_at_last_underscore:
  assumes "p @ CHR ''_'' # d = q @ CHR ''_'' # e"
    and "CHR ''_'' \<notin> set d" and "CHR ''_'' \<notin> set e"
  shows "p = q \<and> d = e"
proof -
  have "takeWhile (\<lambda>c. c \<noteq> CHR ''_'') (rev (p @ CHR ''_'' # d)) = rev d"
    using assms(2) by (simp add: takeWhile_until)
  moreover have "takeWhile (\<lambda>c. c \<noteq> CHR ''_'') (rev (q @ CHR ''_'' # e)) = rev e"
    using assms(3) by (simp add: takeWhile_until)
  ultimately have "d = e" using assms(1) by simp
  with assms(1) show ?thesis by simp
qed

lemma format_name_MSH_1:
  "format_name p (index + 1) = ''MSH_1'' \<longleftrightarrow> p = ''MSH'' \<and> index = 0"
proof
  assume a: "format_name p (index + 1) = ''MSH_1''"
  then have "p @ CHR ''_'' # string_of_nat (index + 1) = ''MSH'' @ CHR ''_'' # ''1''"
    by (simp add: format_name_def)
  from split_at_last_underscore [OF this string_of_nat_no_underscore]
  have "p = ''MSH''" and "string_of_nat (index + 1) = ''1''" by simp_all
  then show "p = ''MSH'' \<and> index = 0" by (simp add: string_of_nat_one)
next
  assume "p = ''MSH'' \<and> index = 0"
  then show "format_name p (index + 1) = ''MSH_1''"
    by (simp add: format_name_def string_of_nat.simps digit_char_def)
qed

lemma format_name_MSH_2_blank:
  "format_name p (index + 1) = ''MSH_2'' \<Longrightarrow> format_name p (index + 1) \<noteq> ''MSH_1''"
  by simp

lemma parse_field_repetitions_length:
  "parse_field_repetitions core name version ec vl fv reps = Inr fs \<Longrightarrow>
     length fs = length reps \<and>
     (\<forall>i < length reps. parse_field core (reps ! i) name version ec vl None fv = Inr (fs ! i))"
proof (induction reps arbitrary: fs)
  case Nil
  then show ?case by simp
next
  case (Cons rep reps)
  from Cons.prems obtain f fs' where f: "parse_field core rep name version ec vl None fv = Inr f"
    and r: "parse_field_repetitions core name version ec vl fv reps = Inr fs'"
    and fs: "fs = f # fs'"
    by (auto split: sum.splits)
  from Cons.IH [OF r] f fs show ?case
    by (auto simp: nth_Cons split: nat.splits)
qed


lemma split_notin: "sep \<notin> set a \<Longrightarrow> split sep a = [a]"
  by (induction a) auto

lemma split_subset: "w \<in> set (split sep s) \<Longrightarrow> set w \<subseteq> set s"
proof (induction s arbitrary: w)
  case Nil
  then show ?case by simp
next
  case (Cons c cs)
  show ?case
  proof (cases "c = sep")
    case True
    with Cons show ?thesis by auto
  next
    case False
    obtain v vs where sp: "split sep cs = v # vs"
      using split_not_Nil [of sep cs] by (cases "split sep cs") auto
    with False Cons.prems have "w = c # v \<or> w \<in> set vs" by simp
    moreover have "set v \<subseteq> set cs" using Cons.IH [of v] sp by simp
    moreover have "w \<in> set vs \<Longrightarrow> set w \<subseteq> set cs" using Cons.IH [of w] sp by simp
    ultimately show ?thesis by auto
  qed
qed

lemma strip_char_subset: "set (strip_char c s) \<subseteq> set s"
proof -
  have "set (dropWhile (\<lambda>x. x = c) (rev (dropWhile (\<lambda>x. x = c) s)))
          \<subseteq> set (rev (dropWhile (\<lambda>x. x = c) s))"
    by (rule set_dropWhileD [THEN subsetI])
  also have "\<dots> \<subseteq> set s"
    using set_dropWhileD [of _ "\<lambda>x. x = c" s] by auto
  finally show ?thesis by (simp add: strip_char_def)
qed

lemma parse_fields_slot_no_prefix:
  "parse_fields_slot core None version ec vl fv index field =
     parse_field_repetitions core None version ec vl fv (split (REPETITION ec) field)"
  by (simp add: parse_fields_slot_def)

lemma parse_fields_slot_blank:
  assumes "strip field = []"
  shows "parse_fields_slot core (Some prefix) version ec vl fv index field =
     (if prefix = ''MSH'' \<and> index = 0
      then (case parse_field core [FIELD ec] (Some ''MSH_1'') version ec vl None False of
              Inl e \<Rightarrow> Inl e
            | Inr f \<Rightarrow> Inr [f])
      else Inr [])"
  using assms format_name_MSH_1 [of prefix index]
  by (auto simp: parse_fields_slot_def Let_def)

lemma parse_fields_loop_no_prefix:
  assumes "parse_fields_loop core None version ec vl fv index slots = Inr fs"
    and "\<forall>slot \<in> set slots. REPETITION ec \<notin> set slot"
  shows "length fs = length slots \<and>
     (\<forall>i < length slots. parse_field core (slots ! i) None version ec vl None fv = Inr (fs ! i))"
  using assms
proof (induction slots arbitrary: fs index)
  case Nil
  then show ?case by simp
next
  case (Cons slot slots)
  from Cons.prems(2) have sp: "split (REPETITION ec) slot = [slot]"
    by (simp add: split_notin)
  from Cons.prems(1) obtain f fs' where
    f: "parse_field core slot None version ec vl None fv = Inr f"
    and r: "parse_fields_loop core None version ec vl fv (index + 1) slots = Inr fs'"
    and fs: "fs = f # fs'"
    by (auto simp: parse_fields_slot_no_prefix sp split: sum.splits)
  from Cons.IH [OF r] Cons.prems(2) f fs show ?case
    by (auto simp: nth_Cons split: nat.splits)
qed

lemma string_of_nat_two: "string_of_nat n = ''2'' \<longleftrightarrow> n = 2"
proof
  assume a: "string_of_nat n = ''2''"
  show "n = 2"
  proof (cases "n < 10")
    case True
    then have "n \<in> {0, 1, 2, 3, 4, 5, 6, 7, 8, 9}" by auto
    with a show ?thesis
      by (subst (asm) string_of_nat.simps) (auto simp: digit_char_def)
  next
    case False
    with a have "string_of_nat (n div 10) @ [digit_char (n mod 10)] = ''2''"
      by (subst (asm) string_of_nat.simps) simp
    then have "string_of_nat (n div 10) = []" by (simp add: append_eq_Cons_conv)
    with string_of_nat_ne show ?thesis by blast
  qed
next
  assume "n = 2"
  then show "string_of_nat n = ''2''"
    by (simp add: string_of_nat.simps digit_char_def)
qed

lemma format_name_MSH_2:
  "format_name p (index + 1) = ''MSH_2'' \<longleftrightarrow> p = ''MSH'' \<and> index = 1"
proof
  assume a: "format_name p (index + 1) = ''MSH_2''"
  then have "p @ CHR ''_'' # string_of_nat (index + 1) = ''MSH'' @ CHR ''_'' # ''2''"
    by (simp add: format_name_def)
  from split_at_last_underscore [OF this string_of_nat_no_underscore]
  have "p = ''MSH''" and "string_of_nat (index + 1) = ''2''" by simp_all
  then show "p = ''MSH'' \<and> index = 1" by (simp add: string_of_nat_two)
next
  assume "p = ''MSH'' \<and> index = 1"
  then show "format_name p (index + 1) = ''MSH_2''"
    by (simp add: format_name_def string_of_nat.simps digit_char_def)
qed

text \<open>The results of the calls of \<open>parse_field\<close> that one repetition loop makes.\<close>

lemma parse_field_repetitions_calls:
  "parse_field_repetitions core name version ec vl fv reps = Inr fs \<Longrightarrow>
     map Inr fs = map (\<lambda>rep. parse_field core rep name version ec vl None fv) reps"
proof (induction reps arbitrary: fs)
  case Nil
  then show ?case by simp
next
  case (Cons rep reps)
  from Cons.prems obtain f fs' where f: "parse_field core rep name version ec vl None fv = Inr f"
    and r: "parse_field_repetitions core name version ec vl fv reps = Inr fs'"
    and fs: "fs = f # fs'"
    by (auto split: sum.splits)
  from Cons.IH [OF r] f fs show ?case by simp
qed

text \<open>
  One iteration of the loop of \<open>parse_fields\<close>, by the four cases of lines 187-194:
  the calls of \<open>parse_field\<close> whose results the slot at position \<open>i\<close> appends.
\<close>

lemma parse_fields_slot_prefix:
  assumes "parse_fields_slot core (Some prefix) version ec vl fv i slot = Inr fs"
  shows "map Inr fs =
     (if strip slot = []
      then (if prefix = ''MSH'' \<and> i = 0
            then [parse_field core [FIELD ec] (Some ''MSH_1'') version ec vl None False]
            else [])
      else if prefix = ''MSH'' \<and> i = 1
      then [parse_field core slot (Some ''MSH_2'') version ec vl None False]
      else map (\<lambda>rep. parse_field core rep (Some (format_name prefix (i + 1))) version ec vl
                        None fv)
             (split (REPETITION ec) slot))"
proof (cases "strip slot = []")
  case True
  with assms show ?thesis
    by (auto simp: parse_fields_slot_blank split: if_splits sum.splits)
next
  case False
  show ?thesis
  proof (cases "prefix = ''MSH'' \<and> i = 1")
    case True
    with format_name_MSH_2 [of prefix i] have "format_name prefix (i + 1) = ''MSH_2''" by blast
    with assms False True show ?thesis
      by (auto simp: parse_fields_slot_def Let_def split: sum.splits)
  next
    case no: False
    with format_name_MSH_2 [of prefix i] have "format_name prefix (i + 1) \<noteq> ''MSH_2''"
      by blast
    with assms False have "parse_field_repetitions core (Some (format_name prefix (i + 1)))
        version ec vl fv (split (REPETITION ec) slot) = Inr fs"
      by (simp add: parse_fields_slot_def Let_def)
    from parse_field_repetitions_calls [OF this] show ?thesis
      unfolding if_not_P [OF False] if_not_P [OF no] .
  qed
qed

lemma parse_fields_slot_none:
  assumes "parse_fields_slot core None version ec vl fv i slot = Inr fs"
  shows "map Inr fs =
     map (\<lambda>rep. parse_field core rep None version ec vl None fv) (split (REPETITION ec) slot)"
  using assms unfolding parse_fields_slot_no_prefix by (rule parse_field_repetitions_calls)

text \<open>The loop of \<open>parse_fields\<close> appends one block of fields for each slot, in order.\<close>

lemma parse_fields_loop_blocks:
  "parse_fields_loop core np version ec vl fv index slots = Inr fs \<Longrightarrow>
     \<exists>blocks. fs = concat blocks \<and> length blocks = length slots \<and>
       (\<forall>i < length slots.
          parse_fields_slot core np version ec vl fv (index + i) (slots ! i) = Inr (blocks ! i))"
proof (induction slots arbitrary: fs index)
  case Nil
  then show ?case by simp
next
  case (Cons slot slots)
  from Cons.prems obtain b fs' where
    b: "parse_fields_slot core np version ec vl fv index slot = Inr b"
    and r: "parse_fields_loop core np version ec vl fv (index + 1) slots = Inr fs'"
    and fs: "fs = b @ fs'"
    by (auto split: sum.splits)
  from Cons.IH [OF r] obtain blocks where
    bl: "fs' = concat blocks" "length blocks = length slots"
      "\<forall>i < length slots.
          parse_fields_slot core np version ec vl fv (index + 1 + i) (slots ! i) = Inr (blocks ! i)"
    by blast
  have "\<forall>i < length (slot # slots).
          parse_fields_slot core np version ec vl fv (index + i) ((slot # slots) ! i)
            = Inr ((b # blocks) ! i)"
  proof (intro allI impI)
    fix i assume i: "i < length (slot # slots)"
    show "parse_fields_slot core np version ec vl fv (index + i) ((slot # slots) ! i)
            = Inr ((b # blocks) ! i)"
    proof (cases i)
      case 0
      with b show ?thesis by simp
    next
      case (Suc j)
      with i bl(3) show ?thesis by simp
    qed
  qed
  with fs bl(1,2) have "fs = concat (b # blocks) \<and> length (b # blocks) = length (slot # slots) \<and>
     (\<forall>i < length (slot # slots).
          parse_fields_slot core np version ec vl fv (index + i) ((slot # slots) ! i)
            = Inr ((b # blocks) ! i))"
    by simp
  then show ?case by blast
qed

lemma parse_fields_blocks:
  assumes "parse_fields core raw np version ec vl fv = Inr flds"
  shows "\<exists>blocks. flds = concat blocks \<and>
       length blocks = length (split (FIELD ec) (strip_char CR raw)) \<and>
       (\<forall>i < length (split (FIELD ec) (strip_char CR raw)).
          parse_fields_slot core np version ec vl fv i (split (FIELD ec) (strip_char CR raw) ! i)
            = Inr (blocks ! i))"
proof -
  from assms have "parse_fields_loop core np version ec vl fv 0
                     (split (FIELD ec) (strip_char CR raw)) = Inr flds"
    by (simp add: parse_fields_def)
  from parse_fields_loop_blocks [OF this] show ?thesis by simp
qed

text \<open>
  Claim C6, as the code has it. The result of \<open>parse_fields\<close> is the fields of
  one block per slot, in the order of the slots. With a name prefix, the block of
  a slot that is empty or blank is empty, except at the first slot of the control
  segment, where it is the one field \<open>MSH_1\<close> parsed from the field separator
  itself; the block of any other slot is never empty: one field for each
  repetition of the slot (the whole slot for \<open>MSH_2\<close>), named by prefix and
  position. Without a name prefix no slot is suppressed: the block of every
  slot, empty or not, is one field for each repetition of the slot (at least one),
  each parsed with no name. So the \<open>i\<close>-th field of the result is the \<open>i\<close>-th slot
  of the text when the text holds no repetition separator.
\<close>

theorem empty_slot_suppression:
  "(parse_fields core raw (Some prefix) version ec vl fv = Inr flds \<longrightarrow>
      (\<exists>blocks. flds = concat blocks \<and>
         length blocks = length (split (FIELD ec) (strip_char CR raw)) \<and>
         (\<forall>i < length (split (FIELD ec) (strip_char CR raw)).
            map Inr (blocks ! i) =
              (if strip (split (FIELD ec) (strip_char CR raw) ! i) = []
               then (if prefix = ''MSH'' \<and> i = 0
                     then [parse_field core [FIELD ec] (Some ''MSH_1'') version ec vl None False]
                     else [])
               else if prefix = ''MSH'' \<and> i = 1
               then [parse_field core (split (FIELD ec) (strip_char CR raw) ! i) (Some ''MSH_2'')
                       version ec vl None False]
               else map (\<lambda>rep. parse_field core rep (Some (format_name prefix (i + 1)))
                                  version ec vl None fv)
                      (split (REPETITION ec) (split (FIELD ec) (strip_char CR raw) ! i)))
            \<and> (strip (split (FIELD ec) (strip_char CR raw) ! i) \<noteq> [] \<longrightarrow>
                   blocks ! i \<noteq> [])))) \<and>
   (parse_fields core raw None version ec vl fv = Inr flds \<longrightarrow>
      map Inr flds =
        concat (map (\<lambda>slot. map (\<lambda>rep. parse_field core rep None version ec vl None fv)
                                (split (REPETITION ec) slot))
                    (split (FIELD ec) (strip_char CR raw))) \<and>
      length (split (FIELD ec) (strip_char CR raw)) \<le> length flds) \<and>
   (parse_fields core raw None version ec vl fv = Inr flds \<and> REPETITION ec \<notin> set raw \<longrightarrow>
      map Inr flds =
        map (\<lambda>slot. parse_field core slot None version ec vl None fv)
            (split (FIELD ec) (strip_char CR raw)))"
proof (intro conjI impI)
  let ?slots = "split (FIELD ec) (strip_char CR raw)"
  let ?calls = "\<lambda>i. if strip (?slots ! i) = []
               then (if prefix = ''MSH'' \<and> i = 0
                     then [parse_field core [FIELD ec] (Some ''MSH_1'') version ec vl None False]
                     else [])
               else if prefix = ''MSH'' \<and> i = 1
               then [parse_field core (?slots ! i) (Some ''MSH_2'') version ec vl None False]
               else map (\<lambda>rep. parse_field core rep (Some (format_name prefix (i + 1)))
                                  version ec vl None fv)
                      (split (REPETITION ec) (?slots ! i))"
  assume "parse_fields core raw (Some prefix) version ec vl fv = Inr flds"
  from parse_fields_blocks [OF this] obtain blocks where
    bl: "flds = concat blocks" "length blocks = length ?slots"
      "\<forall>i < length ?slots.
          parse_fields_slot core (Some prefix) version ec vl fv i (?slots ! i) = Inr (blocks ! i)"
    by blast
  have "\<forall>i < length ?slots.
          map Inr (blocks ! i) = ?calls i \<and> (strip (?slots ! i) \<noteq> [] \<longrightarrow> blocks ! i \<noteq> [])"
  proof (intro allI impI conjI)
    fix i assume "i < length ?slots"
    with bl(3) have
      "parse_fields_slot core (Some prefix) version ec vl fv i (?slots ! i) = Inr (blocks ! i)"
      by simp
    then show c: "map Inr (blocks ! i) = ?calls i" by (rule parse_fields_slot_prefix)
    assume "strip (?slots ! i) \<noteq> []"
    with c have "map Inr (blocks ! i) \<noteq> ([] :: (error + field) list)"
      using split_not_Nil [of "REPETITION ec" "?slots ! i"] by (auto split: if_splits)
    then show "blocks ! i \<noteq> []" by simp
  qed
  with bl(1,2) show "\<exists>blocks. flds = concat blocks \<and> length blocks = length ?slots \<and>
         (\<forall>i < length ?slots.
            map Inr (blocks ! i) = ?calls i
            \<and> (strip (?slots ! i) \<noteq> [] \<longrightarrow> blocks ! i \<noteq> []))"
    by blast
next
  let ?slots = "split (FIELD ec) (strip_char CR raw)"
  let ?calls = "\<lambda>slot. map (\<lambda>rep. parse_field core rep None version ec vl None fv)
                           (split (REPETITION ec) slot)"
  assume "parse_fields core raw None version ec vl fv = Inr flds"
  from parse_fields_blocks [OF this] obtain blocks where
    bl: "flds = concat blocks" "length blocks = length ?slots"
      "\<forall>i < length ?slots.
          parse_fields_slot core None version ec vl fv i (?slots ! i) = Inr (blocks ! i)"
    by blast
  have each: "map Inr (blocks ! i) = ?calls (?slots ! i)" if "i < length ?slots" for i
    using bl(3) that by (intro parse_fields_slot_none [where i = i]) simp
  have "map (map Inr) blocks = map ?calls ?slots"
    using bl(2) each by (intro nth_equalityI) simp_all
  then have "concat (map (map Inr) blocks) = concat (map ?calls ?slots)" by simp
  with bl(1) show "map Inr flds = concat (map ?calls ?slots)" by (simp add: map_concat)
  have "length blocks \<le> length (concat blocks)"
  proof -
    have ne: "\<forall>b \<in> set blocks. b \<noteq> []"
    proof
      fix b assume "b \<in> set blocks"
      then obtain i where i: "i < length blocks" "blocks ! i = b" by (auto simp: in_set_conv_nth)
      with each [of i] bl(2) split_not_Nil [of "REPETITION ec" "?slots ! i"]
      show "b \<noteq> []" by auto
    qed
    then show ?thesis
    proof (induction blocks)
      case Nil
      then show ?case by simp
    next
      case (Cons b blocks)
      then have "b \<noteq> []" and le: "length blocks \<le> length (concat blocks)" by simp_all
      then obtain x xs where "b = x # xs" by (cases b) auto
      with le show ?case by simp
    qed
  qed
  with bl(1,2) show "length ?slots \<le> length flds" by simp
next
  let ?slots = "split (FIELD ec) (strip_char CR raw)"
  assume a: "parse_fields core raw None version ec vl fv = Inr flds \<and> REPETITION ec \<notin> set raw"
  then have loop: "parse_fields_loop core None version ec vl fv 0 ?slots = Inr flds"
    by (simp add: parse_fields_def)
  have "\<forall>slot \<in> set ?slots. REPETITION ec \<notin> set slot"
  proof
    fix slot assume "slot \<in> set ?slots"
    then have "set slot \<subseteq> set (strip_char CR raw)" by (rule split_subset)
    with strip_char_subset [of CR raw] a show "REPETITION ec \<notin> set slot" by blast
  qed
  from parse_fields_loop_no_prefix [OF loop this]
  have "length flds = length ?slots"
    and "\<forall>i < length ?slots.
         parse_field core (?slots ! i) None version ec vl None fv = Inr (flds ! i)"
    by simp_all
  then show "map Inr flds = map (\<lambda>slot. parse_field core slot None version ec vl None fv) ?slots"
    by (intro nth_equalityI) simp_all
qed

definition unnamed_field :: "string \<Rightarrow> field" where
  "unnamed_field v =
     \<lparr>f_name = None, f_datatype = None,
      f_children = [\<lparr>c_name = Some ''VARIES_1'', c_datatype = None,
                     c_validation_level = Some 2,
                     c_children = [\<lparr>sc_name = None, sc_datatype = Some ''ST'',
                                    sc_value = v\<rparr>]\<rparr>]\<rparr>"

definition control_leaf :: "string \<Rightarrow> string \<Rightarrow> field" where
  "control_leaf name v =
     \<lparr>f_name = Some name, f_datatype = Some ''ST'',
      f_children = [\<lparr>c_name = None, c_datatype = Some ''ST'', c_validation_level = None,
                     c_children = [\<lparr>sc_name = None, sc_datatype = Some ''ST'',
                                    sc_value = v\<rparr>]\<rparr>]\<rparr>"

definition example_PID_fields :: "field list" where
  "example_PID_fields =
     [\<lparr>f_name = Some ''PID_1'', f_datatype = Some ''SI'',
       f_children = [\<lparr>c_name = None, c_datatype = Some ''SI'', c_validation_level = Some 2,
                      c_children = [\<lparr>sc_name = None, sc_datatype = Some ''SI'',
                                     sc_value = ''1''\<rparr>]\<rparr>]\<rparr>,
      \<lparr>f_name = Some ''PID_3'', f_datatype = Some ''CX'',
       f_children = [\<lparr>c_name = Some ''CX_1'', c_datatype = Some ''ST'',
                      c_validation_level = Some 2,
                      c_children = [\<lparr>sc_name = None, sc_datatype = Some ''ST'',
                                     sc_value = ''x''\<rparr>]\<rparr>]\<rparr>,
      \<lparr>f_name = Some ''PID_3'', f_datatype = Some ''CX'',
       f_children = [\<lparr>c_name = Some ''CX_1'', c_datatype = Some ''ST'',
                      c_validation_level = Some 2,
                      c_children = [\<lparr>sc_name = None, sc_datatype = Some ''ST'',
                                     sc_value = ''y''\<rparr>]\<rparr>]\<rparr>]"

definition example_MSH_3 :: field where
  "example_MSH_3 =
     \<lparr>f_name = Some ''MSH_3'', f_datatype = Some ''HD'',
      f_children = [\<lparr>c_name = Some ''HD_1'', c_datatype = Some ''IS'',
                     c_validation_level = Some 2,
                     c_children = [\<lparr>sc_name = None, sc_datatype = Some ''IS'',
                                    sc_value = ''GHH''\<rparr>]\<rparr>]\<rparr>"

theorem empty_slot_suppression_witness:
  "parse_fields example_core ''1||x~y'' (Some ''PID'') ''2.5'' example_encoding_chars (Some 2) False
     = Inr example_PID_fields \<and>
   split (FIELD example_encoding_chars) (strip_char CR ''1||x~y'') = [''1'', [], ''x~y''] \<and>
   (\<exists>blocks. example_PID_fields = concat blocks \<and> length blocks = 3 \<and> blocks ! 1 = []
      \<and> blocks ! 0 \<noteq> [] \<and> blocks ! 2 \<noteq> []) \<and>
   parse_fields example_core ''||GHH'' (Some ''MSH'') ''2.5'' example_encoding_chars (Some 2) False
     = Inr [control_leaf ''MSH_1'' ''|'', example_MSH_3] \<and>
   (\<exists>blocks. [control_leaf ''MSH_1'' ''|'', example_MSH_3] = concat blocks \<and> length blocks = 3
      \<and> map Inr (blocks ! 0) =
            [parse_field example_core ''|'' (Some ''MSH_1'') ''2.5'' example_encoding_chars
               (Some 2) None False]
      \<and> blocks ! 1 = []) \<and>
   parse_fields example_core ''1||a'' None ''2.5'' example_encoding_chars (Some 2) False =
     Inr [unnamed_field ''1'', unnamed_field [], unnamed_field ''a''] \<and>
   REPETITION example_encoding_chars \<notin> set ''1||a'' \<and>
   map Inr [unnamed_field ''1'', unnamed_field [], unnamed_field ''a''] =
     map (\<lambda>slot. parse_field example_core slot None ''2.5'' example_encoding_chars (Some 2)
                      None False) [''1'', [], ''a''] \<and>
   parse_fields example_core ''a~b|c'' None ''2.5'' example_encoding_chars (Some 2) False =
     Inr [unnamed_field ''a'', unnamed_field ''b'', unnamed_field ''c''] \<and>
   map Inr [unnamed_field ''a'', unnamed_field ''b'', unnamed_field ''c''] =
     concat (map (\<lambda>slot. map (\<lambda>rep. parse_field example_core rep None ''2.5''
                                         example_encoding_chars (Some 2) None False)
                                (split (REPETITION example_encoding_chars) slot))
                 [''a~b'', ''c''])"
proof -
  note T = empty_slot_suppression [where core = example_core and version = "''2.5''"
      and ec = example_encoding_chars and vl = "Some 2" and fv = False]
  have pid: "parse_fields example_core ''1||x~y'' (Some ''PID'') ''2.5'' example_encoding_chars
               (Some 2) False = Inr example_PID_fields"
    by code_simp
  have pid_slots: "split (FIELD example_encoding_chars) (strip_char CR ''1||x~y'')
                     = [''1'', [], ''x~y'']"
    by code_simp
  have blank: "strip [] = []" and s1: "strip ''1'' \<noteq> []" and sxy: "strip ''x~y'' \<noteq> []"
    by (simp_all add: strip_def is_space_def)
  from T [where prefix = "''PID''", THEN conjunct1, THEN mp, OF pid]
  obtain blocks where b: "example_PID_fields = concat blocks" "length blocks = 3"
    and all: "\<forall>i < 3. if strip ([''1'', [], ''x~y''] ! i) = []
                then map Inr (blocks ! i) = ([] :: (error + field) list)
                else blocks ! i \<noteq> []"
    unfolding pid_slots by auto
  from all [rule_format, of 0] s1 have b0: "blocks ! 0 \<noteq> []" by simp
  from all [rule_format, of 1] blank have b1: "blocks ! 1 = []" by simp
  from all [rule_format, of 2] sxy have b2: "blocks ! 2 \<noteq> []" by simp
  from b b0 b1 b2 have 1: "\<exists>blocks. example_PID_fields = concat blocks \<and> length blocks = 3
      \<and> blocks ! 1 = [] \<and> blocks ! 0 \<noteq> [] \<and> blocks ! 2 \<noteq> []"
    by blast
  have msh: "parse_fields example_core ''||GHH'' (Some ''MSH'') ''2.5'' example_encoding_chars
               (Some 2) False = Inr [control_leaf ''MSH_1'' ''|'', example_MSH_3]"
    by code_simp
  have msh_slots: "split (FIELD example_encoding_chars) (strip_char CR ''||GHH'')
                     = [[], [], ''GHH'']"
    by code_simp
  have sep: "[FIELD example_encoding_chars] = ''|''" by (simp add: example_encoding_chars_def)
  from T [where prefix = "''MSH''", THEN conjunct1, THEN mp, OF msh]
  obtain blocks' where m: "[control_leaf ''MSH_1'' ''|'', example_MSH_3] = concat blocks'"
      "length blocks' = 3"
    and all': "\<forall>i < 3. if strip ([[], [], ''GHH''] ! i) = []
                then map Inr (blocks' ! i) =
                       (if i = 0
                        then [parse_field example_core ''|'' (Some ''MSH_1'') ''2.5''
                                example_encoding_chars (Some 2) None False]
                        else [])
                else blocks' ! i \<noteq> []"
    unfolding msh_slots sep by auto
  from all' [rule_format, of 0] blank
  have m0: "map Inr (blocks' ! 0) =
            [parse_field example_core ''|'' (Some ''MSH_1'') ''2.5'' example_encoding_chars
               (Some 2) None False]" by simp
  from all' [rule_format, of 1] blank have m1: "blocks' ! 1 = []" by simp
  from m m0 m1 have 2: "\<exists>blocks. [control_leaf ''MSH_1'' ''|'', example_MSH_3] = concat blocks
      \<and> length blocks = 3
      \<and> map Inr (blocks ! 0) =
            [parse_field example_core ''|'' (Some ''MSH_1'') ''2.5'' example_encoding_chars
               (Some 2) None False]
      \<and> blocks ! 1 = []"
    by (intro exI [of _ blocks'] conjI)
  have run: "parse_fields example_core ''1||a'' None ''2.5'' example_encoding_chars (Some 2) False
               = Inr [unnamed_field ''1'', unnamed_field [], unnamed_field ''a'']"
    by code_simp
  have norep: "REPETITION example_encoding_chars \<notin> set ''1||a''"
    by (simp add: example_encoding_chars_def)
  have a_slots: "split (FIELD example_encoding_chars) (strip_char CR ''1||a'') = [''1'', [], ''a'']"
    by code_simp
  from T [where prefix = "''PID''", THEN conjunct2, THEN conjunct2, THEN mp,
          OF conjI [OF run norep]]
  have 3: "map Inr [unnamed_field ''1'', unnamed_field [], unnamed_field ''a''] =
     map (\<lambda>slot. parse_field example_core slot None ''2.5'' example_encoding_chars (Some 2)
                      None False) [''1'', [], ''a'']"
    unfolding a_slots .
  have rep: "parse_fields example_core ''a~b|c'' None ''2.5'' example_encoding_chars (Some 2) False
               = Inr [unnamed_field ''a'', unnamed_field ''b'', unnamed_field ''c'']"
    by code_simp
  have r_slots: "split (FIELD example_encoding_chars) (strip_char CR ''a~b|c'') = [''a~b'', ''c'']"
    by code_simp
  from T [where prefix = "''PID''", THEN conjunct2, THEN conjunct1, THEN mp, OF rep,
          THEN conjunct1]
  have 4: "map Inr [unnamed_field ''a'', unnamed_field ''b'', unnamed_field ''c''] =
     concat (map (\<lambda>slot. map (\<lambda>rep. parse_field example_core rep None ''2.5''
                                         example_encoding_chars (Some 2) None False)
                                (split (REPETITION example_encoding_chars) slot))
                 [''a~b'', ''c''])"
    unfolding r_slots .
  from pid pid_slots 1 msh 2 run norep 3 rep 4 show ?thesis by blast
qed

text \<open>
  The claim as stated fails without a name prefix when a slot holds a repetition
  separator: the two slots of \<open>a~b|c\<close> yield three unnamed fields, and the field at
  position 1 is the second repetition of slot 0, not slot 1.
\<close>

theorem repetition_shifts_unnamed_fields:
  "split (FIELD example_encoding_chars) (strip_char CR ''a~b|c'') = [''a~b'', ''c''] \<and>
   parse_fields example_core ''a~b|c'' None ''2.5'' example_encoding_chars (Some 2) False =
     Inr [unnamed_field ''a'', unnamed_field ''b'', unnamed_field ''c''] \<and>
   parse_field example_core ''c'' None ''2.5'' example_encoding_chars (Some 2) None False =
     Inr (unnamed_field ''c'') \<and>
   unnamed_field ''b'' \<noteq> unnamed_field ''c''"
  by code_simp

lemma parse_field_control_leaf:
  assumes "name \<in> {Some ''MSH_1'', Some ''MSH_2''}"
    and "parse_field core raw name version ec vl reference fv = Inr f"
  shows "\<exists>field c s.
           construct_field core name version vl reference fv = Inr field \<and>
           Component core None (Some ''ST'') None None None = Inr c \<and>
           SubComponent core None (Some ''ST'') raw None None = Inr s \<and>
           f = field\<lparr>f_children := f_children field @ [c\<lparr>c_children := c_children c @ [s]\<rparr>]\<rparr>"
  using assms
  by (auto simp: parse_field_def field_add_def component_add_def split: sum.splits)

lemma strip_Nil: "strip [] = []"
  by (simp add: strip_def)

lemma map_Inr_single: "map Inr xs = [y] \<Longrightarrow> \<exists>x. xs = [x] \<and> y = Inr x"
  by (cases xs) auto

text \<open>
  Claim C7, as the code has it. For the names \<open>MSH_1\<close> and \<open>MSH_2\<close>, \<open>parse_field\<close>
  does not decompose the text: the field gets one \<open>ST\<close> component holding one
  \<open>ST\<close> sub-component built from the whole text. When the text of the control
  segment begins with an empty slot (the segment is written with the field
  separator right after its name), the first field that \<open>parse_fields\<close> returns is
  the leaf \<open>MSH_1\<close> built from the field separator; when moreover the second slot
  is not blank, the second field is the leaf \<open>MSH_2\<close> built from the whole second
  slot, which is split on no separator.
\<close>

theorem control_fields_are_single_leaves:
  "(name \<in> {Some ''MSH_1'', Some ''MSH_2''} \<and>
    construct_field core name version vl reference fv = Inr field \<and>
    SubComponent core None (Some ''ST'') raw None None = Inr s \<and>
    Component core None (Some ''ST'') None None None = Inr c \<longrightarrow>
      parse_field core raw name version ec vl reference fv =
        Inr (field\<lparr>f_children := f_children field @ [c\<lparr>c_children := c_children c @ [s]\<rparr>]\<rparr>)) \<and>
   (parse_fields core raw (Some ''MSH'') version ec vl fv = Inr flds \<and>
    split (FIELD ec) (strip_char CR raw) = [] # slots \<longrightarrow>
      (\<exists>f1 c s1 rest.
         construct_field core (Some ''MSH_1'') version vl None False = Inr f1 \<and>
         Component core None (Some ''ST'') None None None = Inr c \<and>
         SubComponent core None (Some ''ST'') [FIELD ec] None None = Inr s1 \<and>
         flds = f1\<lparr>f_children := f_children f1 @ [c\<lparr>c_children := c_children c @ [s1]\<rparr>]\<rparr>
              # rest)) \<and>
   (parse_fields core raw (Some ''MSH'') version ec vl fv = Inr flds \<and>
    split (FIELD ec) (strip_char CR raw) = [] # msh_2 # others \<and>
    strip msh_2 \<noteq> [] \<longrightarrow>
      (\<exists>f1 f2 c s1 s2 rest.
         construct_field core (Some ''MSH_1'') version vl None False = Inr f1 \<and>
         construct_field core (Some ''MSH_2'') version vl None False = Inr f2 \<and>
         Component core None (Some ''ST'') None None None = Inr c \<and>
         SubComponent core None (Some ''ST'') [FIELD ec] None None = Inr s1 \<and>
         SubComponent core None (Some ''ST'') msh_2 None None = Inr s2 \<and>
         flds = f1\<lparr>f_children := f_children f1 @ [c\<lparr>c_children := c_children c @ [s1]\<rparr>]\<rparr>
              # f2\<lparr>f_children := f_children f2 @ [c\<lparr>c_children := c_children c @ [s2]\<rparr>]\<rparr>
              # rest))"
proof (intro conjI impI)
  assume "name \<in> {Some ''MSH_1'', Some ''MSH_2''} \<and>
    construct_field core name version vl reference fv = Inr field \<and>
    SubComponent core None (Some ''ST'') raw None None = Inr s \<and>
    Component core None (Some ''ST'') None None None = Inr c"
  then show "parse_field core raw name version ec vl reference fv =
        Inr (field\<lparr>f_children := f_children field @ [c\<lparr>c_children := c_children c @ [s]\<rparr>]\<rparr>)"
    by (auto simp: parse_field_def field_add_def component_add_def)
next
  let ?slots = "split (FIELD ec) (strip_char CR raw)"
  assume a: "parse_fields core raw (Some ''MSH'') version ec vl fv = Inr flds \<and>
    split (FIELD ec) (strip_char CR raw) = [] # slots"
  then have run: "parse_fields core raw (Some ''MSH'') version ec vl fv = Inr flds"
    and slots: "?slots = [] # slots"
    by simp_all
  from parse_fields_blocks [OF run] obtain blocks where
    bl: "flds = concat blocks" "length blocks = length ?slots"
      "\<forall>i < length ?slots.
          parse_fields_slot core (Some ''MSH'') version ec vl fv i (?slots ! i) = Inr (blocks ! i)"
    by blast
  from bl(2) slots obtain b0 bs where blocks: "blocks = b0 # bs"
    by (cases blocks) auto
  from bl(3) [rule_format, of 0] slots blocks
  have "parse_fields_slot core (Some ''MSH'') version ec vl fv 0 [] = Inr b0" by simp
  from parse_fields_slot_prefix [OF this]
  have "map Inr b0 = [parse_field core [FIELD ec] (Some ''MSH_1'') version ec vl None False]"
    by (simp add: strip_Nil)
  from map_Inr_single [OF this] obtain g1 where g1: "b0 = [g1]"
    "parse_field core [FIELD ec] (Some ''MSH_1'') version ec vl None False = Inr g1"
    by auto
  from parse_field_control_leaf [OF _ g1(2)] obtain f1 c s1 where
    l1: "construct_field core (Some ''MSH_1'') version vl None False = Inr f1"
      "Component core None (Some ''ST'') None None None = Inr c"
      "SubComponent core None (Some ''ST'') [FIELD ec] None None = Inr s1"
      "g1 = f1\<lparr>f_children := f_children f1 @ [c\<lparr>c_children := c_children c @ [s1]\<rparr>]\<rparr>"
    by auto
  from bl(1) blocks g1(1) have "flds = g1 # concat bs" by simp
  with l1 show "\<exists>f1 c s1 rest.
         construct_field core (Some ''MSH_1'') version vl None False = Inr f1 \<and>
         Component core None (Some ''ST'') None None None = Inr c \<and>
         SubComponent core None (Some ''ST'') [FIELD ec] None None = Inr s1 \<and>
         flds = f1\<lparr>f_children := f_children f1 @ [c\<lparr>c_children := c_children c @ [s1]\<rparr>]\<rparr>
              # rest"
    by blast
next
  let ?slots = "split (FIELD ec) (strip_char CR raw)"
  assume a: "parse_fields core raw (Some ''MSH'') version ec vl fv = Inr flds \<and>
    split (FIELD ec) (strip_char CR raw) = [] # msh_2 # others \<and>
    strip msh_2 \<noteq> []"
  then have run: "parse_fields core raw (Some ''MSH'') version ec vl fv = Inr flds"
    and slots: "?slots = [] # msh_2 # others" and ne: "strip msh_2 \<noteq> []"
    by simp_all
  from parse_fields_blocks [OF run] obtain blocks where
    bl: "flds = concat blocks" "length blocks = length ?slots"
      "\<forall>i < length ?slots.
          parse_fields_slot core (Some ''MSH'') version ec vl fv i (?slots ! i) = Inr (blocks ! i)"
    by blast
  from bl(2) slots obtain b0 b1 bs where blocks: "blocks = b0 # b1 # bs"
    by (cases blocks; cases "tl blocks") auto
  from bl(3) [rule_format, of 0] slots blocks
  have "parse_fields_slot core (Some ''MSH'') version ec vl fv 0 [] = Inr b0" by simp
  from parse_fields_slot_prefix [OF this]
  have "map Inr b0 = [parse_field core [FIELD ec] (Some ''MSH_1'') version ec vl None False]"
    by (simp add: strip_Nil)
  from map_Inr_single [OF this] obtain g1 where g1: "b0 = [g1]"
    "parse_field core [FIELD ec] (Some ''MSH_1'') version ec vl None False = Inr g1"
    by auto
  from bl(3) [rule_format, of 1] slots blocks
  have "parse_fields_slot core (Some ''MSH'') version ec vl fv 1 msh_2 = Inr b1" by simp
  from parse_fields_slot_prefix [OF this] ne
  have "map Inr b1 = [parse_field core msh_2 (Some ''MSH_2'') version ec vl None False]"
    by simp
  from map_Inr_single [OF this] obtain g2 where g2: "b1 = [g2]"
    "parse_field core msh_2 (Some ''MSH_2'') version ec vl None False = Inr g2"
    by auto
  from parse_field_control_leaf [OF _ g1(2)] obtain f1 c s1 where
    l1: "construct_field core (Some ''MSH_1'') version vl None False = Inr f1"
      "Component core None (Some ''ST'') None None None = Inr c"
      "SubComponent core None (Some ''ST'') [FIELD ec] None None = Inr s1"
      "g1 = f1\<lparr>f_children := f_children f1 @ [c\<lparr>c_children := c_children c @ [s1]\<rparr>]\<rparr>"
    by auto
  from parse_field_control_leaf [OF _ g2(2)] obtain f2 c' s2 where
    l2: "construct_field core (Some ''MSH_2'') version vl None False = Inr f2"
      "Component core None (Some ''ST'') None None None = Inr c'"
      "SubComponent core None (Some ''ST'') msh_2 None None = Inr s2"
      "g2 = f2\<lparr>f_children := f_children f2 @ [c'\<lparr>c_children := c_children c' @ [s2]\<rparr>]\<rparr>"
    by auto
  from l1(2) l2(2) have cc: "c' = c" by simp
  from bl(1) blocks g1(1) g2(1) have "flds = g1 # g2 # concat bs" by simp
  with l1 l2 cc show "\<exists>f1 f2 c s1 s2 rest.
         construct_field core (Some ''MSH_1'') version vl None False = Inr f1 \<and>
         construct_field core (Some ''MSH_2'') version vl None False = Inr f2 \<and>
         Component core None (Some ''ST'') None None None = Inr c \<and>
         SubComponent core None (Some ''ST'') [FIELD ec] None None = Inr s1 \<and>
         SubComponent core None (Some ''ST'') msh_2 None None = Inr s2 \<and>
         flds = f1\<lparr>f_children := f_children f1 @ [c\<lparr>c_children := c_children c @ [s1]\<rparr>]\<rparr>
              # f2\<lparr>f_children := f_children f2 @ [c\<lparr>c_children := c_children c @ [s2]\<rparr>]\<rparr>
              # rest"
    by blast
qed

theorem control_fields_are_single_leaves_witness:
  "construct_field example_core (Some ''MSH_2'') ''2.5'' (Some 2) None False =
     Inr \<lparr>f_name = Some ''MSH_2'', f_datatype = Some ''ST'', f_children = []\<rparr> \<and>
   SubComponent example_core None (Some ''ST'') (''^~'' @ [CHR 0x5C] @ ''&'') None None =
     Inr \<lparr>sc_name = None, sc_datatype = Some ''ST'', sc_value = ''^~'' @ [CHR 0x5C] @ ''&''\<rparr> \<and>
   Component example_core None (Some ''ST'') None None None =
     Inr \<lparr>c_name = None, c_datatype = Some ''ST'', c_validation_level = None, c_children = []\<rparr> \<and>
   parse_field example_core (''^~'' @ [CHR 0x5C] @ ''&'') (Some ''MSH_2'') ''2.5''
       example_encoding_chars (Some 2) None False =
     Inr (control_leaf ''MSH_2'' (''^~'' @ [CHR 0x5C] @ ''&'')) \<and>
   parse_fields example_core (''|^~'' @ [CHR 0x5C] @ ''&|GHH'') (Some ''MSH'') ''2.5''
       example_encoding_chars (Some 2) False =
     Inr [control_leaf ''MSH_1'' ''|'', control_leaf ''MSH_2'' (''^~'' @ [CHR 0x5C] @ ''&''),
          example_MSH_3] \<and>
   split (FIELD example_encoding_chars) (strip_char CR (''|^~'' @ [CHR 0x5C] @ ''&|GHH'')) =
     [] # (''^~'' @ [CHR 0x5C] @ ''&'') # [''GHH''] \<and>
   strip (''^~'' @ [CHR 0x5C] @ ''&'') = ''^~'' @ [CHR 0x5C] @ ''&'' \<and>
   (\<exists>f1 f2 c s1 s2 rest.
      construct_field example_core (Some ''MSH_1'') ''2.5'' (Some 2) None False = Inr f1 \<and>
      construct_field example_core (Some ''MSH_2'') ''2.5'' (Some 2) None False = Inr f2 \<and>
      Component example_core None (Some ''ST'') None None None = Inr c \<and>
      SubComponent example_core None (Some ''ST'') ''|'' None None = Inr s1 \<and>
      SubComponent example_core None (Some ''ST'') (''^~'' @ [CHR 0x5C] @ ''&'') None None = Inr s2 \<and>
      [control_leaf ''MSH_1'' ''|'', control_leaf ''MSH_2'' (''^~'' @ [CHR 0x5C] @ ''&''),
       example_MSH_3]
        = f1\<lparr>f_children := f_children f1 @ [c\<lparr>c_children := c_children c @ [s1]\<rparr>]\<rparr>
        # f2\<lparr>f_children := f_children f2 @ [c\<lparr>c_children := c_children c @ [s2]\<rparr>]\<rparr>
        # rest) \<and>
   parse_segment example_core (''MSH|^~'' @ [CHR 0x5C] @ ''&|GHH'') ''2.5''
       example_encoding_chars (Some 2) None =
     Inr \<lparr>seg_name = ''MSH'', seg_allow_infinite_children = False,
          seg_children = [control_leaf ''MSH_1'' ''|'',
                          control_leaf ''MSH_2'' (''^~'' @ [CHR 0x5C] @ ''&''),
                          example_MSH_3]\<rparr>"
proof -
  let ?raw = "''^~'' @ [CHR 0x5C] @ ''&''"
  let ?flds = "[control_leaf ''MSH_1'' ''|'', control_leaf ''MSH_2'' ?raw, example_MSH_3]"
  note T = control_fields_are_single_leaves
         [where core = example_core and ec = example_encoding_chars and version = "''2.5''"
            and vl = "Some 2" and fv = False]
  have n: "Some ''MSH_2'' \<in> {Some ''MSH_1'', Some ''MSH_2''}" by simp
  have f: "construct_field example_core (Some ''MSH_2'') ''2.5'' (Some 2) None False =
     Inr \<lparr>f_name = Some ''MSH_2'', f_datatype = Some ''ST'', f_children = []\<rparr>"
    by code_simp
  have s: "SubComponent example_core None (Some ''ST'') ?raw None None =
     Inr \<lparr>sc_name = None, sc_datatype = Some ''ST'', sc_value = ?raw\<rparr>"
    by (simp add: example_core_def)
  have c: "Component example_core None (Some ''ST'') None None None =
     Inr \<lparr>c_name = None, c_datatype = Some ''ST'', c_validation_level = None, c_children = []\<rparr>"
    by (simp add: example_core_def)
  from T [where reference = None, THEN conjunct1, THEN mp, OF conjI [OF n conjI [OF f conjI [OF s c]]]]
  have p: "parse_field example_core ?raw (Some ''MSH_2'') ''2.5''
       example_encoding_chars (Some 2) None False = Inr (control_leaf ''MSH_2'' ?raw)"
    by (simp add: control_leaf_def)
  have run: "parse_fields example_core (''|^~'' @ [CHR 0x5C] @ ''&|GHH'') (Some ''MSH'') ''2.5''
       example_encoding_chars (Some 2) False = Inr ?flds"
    by code_simp
  have slots: "split (FIELD example_encoding_chars) (strip_char CR (''|^~'' @ [CHR 0x5C] @ ''&|GHH''))
      = [] # ?raw # [''GHH'']"
    by code_simp
  have st: "strip ?raw = ?raw" by code_simp
  then have ne: "strip ?raw \<noteq> []" by simp
  have sep: "[FIELD example_encoding_chars] = ''|''" by (simp add: example_encoding_chars_def)
  from T [where name = None and reference = None, THEN conjunct2, THEN conjunct2, THEN mp,
          OF conjI [OF run conjI [OF slots ne]]]
  have leaves: "\<exists>f1 f2 c s1 s2 rest.
      construct_field example_core (Some ''MSH_1'') ''2.5'' (Some 2) None False = Inr f1 \<and>
      construct_field example_core (Some ''MSH_2'') ''2.5'' (Some 2) None False = Inr f2 \<and>
      Component example_core None (Some ''ST'') None None None = Inr c \<and>
      SubComponent example_core None (Some ''ST'') ''|'' None None = Inr s1 \<and>
      SubComponent example_core None (Some ''ST'') ?raw None None = Inr s2 \<and>
      ?flds
        = f1\<lparr>f_children := f_children f1 @ [c\<lparr>c_children := c_children c @ [s1]\<rparr>]\<rparr>
        # f2\<lparr>f_children := f_children f2 @ [c\<lparr>c_children := c_children c @ [s2]\<rparr>]\<rparr>
        # rest"
    unfolding sep .
  have seg: "parse_segment example_core (''MSH|^~'' @ [CHR 0x5C] @ ''&|GHH'') ''2.5''
       example_encoding_chars (Some 2) None =
     Inr \<lparr>seg_name = ''MSH'', seg_allow_infinite_children = False, seg_children = ?flds\<rparr>"
    by code_simp
  from f s c p run slots st leaves seg show ?thesis by (intro conjI)
qed

definition blank_encoding_chars :: encoding_chars where
  "blank_encoding_chars =
     \<lparr>FIELD = CHR ''|'', COMPONENT = CHR 0x20, SUBCOMPONENT = CHR 0x0B,
      REPETITION = CHR 0x09, ESCAPE = CHR 0x0A, SEGMENT = CR, GROUP = CR\<rparr>"

text \<open>
  The claim as stated fails for a control segment whose encoding characters are
  four different whitespace characters. \<open>get_message_info\<close> accepts them; the second
  slot is then blank, its name is not \<open>MSH_1\<close>, and \<open>parse_fields\<close> appends nothing
  for it (line 187, line 193): no field \<open>MSH_2\<close> is stored.
\<close>

theorem blank_MSH_2_is_not_stored:
  "get_message_info (''MSH|'' @ [CHR 0x20, CHR 0x09, CHR 0x0A, CHR 0x0B] @ ''|GHH'') =
     Inr (blank_encoding_chars, None, None) \<and>
   parse_segment example_core (''MSH|'' @ [CHR 0x20, CHR 0x09, CHR 0x0A, CHR 0x0B] @ ''|GHH'')
       ''2.5'' blank_encoding_chars (Some 2) None =
     Inr \<lparr>seg_name = ''MSH'', seg_allow_infinite_children = False,
          seg_children = [control_leaf ''MSH_1'' ''|'', example_MSH_3]\<rparr> \<and>
   parse_fields example_core (''|'' @ [CHR 0x20, CHR 0x09, CHR 0x0A, CHR 0x0B] @ ''|GHH'')
       (Some ''MSH'') ''2.5'' blank_encoding_chars (Some 2) False =
     Inr [control_leaf ''MSH_1'' ''|'', example_MSH_3]"
  by code_simp

text \<open>
  Claim C8. Under quiet policy, when the children decoded for a field (other than
  \<open>MSH_1\<close> and \<open>MSH_2\<close>) or for a component are more than one and the datatype of
  the element is a base datatype, the result is the element with its datatype set
  to \<open>None\<close> and the decoded children as its children; no error is raised. For a
  component the policy is read from the component's own validation level.
\<close>

theorem quiet_clears_base_datatype:
  "(name \<notin> {Some ''MSH_1'', Some ''MSH_2''} \<and>
    construct_field core name version vl reference fv = Inr field \<and>
    parse_components core raw (f_datatype field) version ec vl = Inr children \<and>
    is_quiet core vl \<and> is_base_datatype core (f_datatype field) version \<and>
    1 < length children \<longrightarrow>
      parse_field core raw name version ec vl reference fv =
        Inr (field\<lparr>f_datatype := None, f_children := children\<rparr>)) \<and>
   (construct_component core cname datatype version vl reference = Inr component \<and>
    parse_subcomponents core raw (c_datatype component) version ec vl = Inr subs \<and>
    is_quiet core (c_validation_level component) \<and>
    is_base_datatype core (c_datatype component) version \<and>
    1 < length subs \<longrightarrow>
      parse_component core raw cname datatype version ec vl reference =
        Inr (component\<lparr>c_datatype := None, c_children := subs\<rparr>))"
  by (auto simp: parse_field_def parse_component_def)

theorem quiet_clears_base_datatype_witness:
  "construct_field example_core (Some ''PID_1'') ''2.5'' (Some 2) None False =
     Inr \<lparr>f_name = Some ''PID_1'', f_datatype = Some ''SI'', f_children = []\<rparr> \<and>
   is_quiet example_core (Some 2) \<and> is_base_datatype example_core (Some ''SI'') ''2.5'' \<and>
   (\<exists>children. parse_components example_core ''a^b'' (Some ''SI'') ''2.5''
                   example_encoding_chars (Some 2) = Inr children \<and>
      length children = 2 \<and>
      parse_field example_core ''a^b'' (Some ''PID_1'') ''2.5'' example_encoding_chars
          (Some 2) None False =
        Inr \<lparr>f_name = Some ''PID_1'', f_datatype = None, f_children = children\<rparr>) \<and>
   construct_component example_core (Some ''CX_1'') None ''2.5'' (Some 2) None =
     Inr \<lparr>c_name = Some ''CX_1'', c_datatype = Some ''ST'', c_validation_level = Some 2,
          c_children = []\<rparr> \<and>
   (\<exists>subs. parse_subcomponents example_core ''x&y'' (Some ''ST'') ''2.5''
               example_encoding_chars (Some 2) = Inr subs \<and>
      length subs = 2 \<and>
      parse_component example_core ''x&y'' (Some ''CX_1'') None ''2.5'' example_encoding_chars
          (Some 2) None =
        Inr \<lparr>c_name = Some ''CX_1'', c_datatype = None, c_validation_level = Some 2,
             c_children = subs\<rparr>)"
proof -
  let ?field = "\<lparr>f_name = Some ''PID_1'', f_datatype = Some ''SI'', f_children = []\<rparr>"
  let ?children = "[\<lparr>c_name = None, c_datatype = Some ''SI'', c_validation_level = Some 2,
                     c_children = [\<lparr>sc_name = None, sc_datatype = Some ''SI'', sc_value = ''a''\<rparr>]\<rparr>,
                    \<lparr>c_name = None, c_datatype = Some ''SI'', c_validation_level = Some 2,
                     c_children = [\<lparr>sc_name = None, sc_datatype = Some ''SI'', sc_value = ''b''\<rparr>]\<rparr>]"
  let ?component = "\<lparr>c_name = Some ''CX_1'', c_datatype = Some ''ST'',
                      c_validation_level = Some 2, c_children = []\<rparr>"
  let ?subs = "[\<lparr>sc_name = None, sc_datatype = Some ''ST'', sc_value = ''x''\<rparr>,
                \<lparr>sc_name = None, sc_datatype = Some ''ST'', sc_value = ''y''\<rparr>]"
  have n: "Some ''PID_1'' \<notin> {Some ''MSH_1'', Some ''MSH_2''}" by simp
  have f: "construct_field example_core (Some ''PID_1'') ''2.5'' (Some 2) None False = Inr ?field"
    by code_simp
  have ch: "parse_components example_core ''a^b'' (f_datatype ?field) ''2.5''
              example_encoding_chars (Some 2) = Inr ?children"
    by code_simp
  have q: "is_quiet example_core (Some 2)" by (simp add: example_core_def)
  have b: "is_base_datatype example_core (f_datatype ?field) ''2.5''"
    by (simp add: example_core_def)
  have l: "1 < length ?children" by simp
  have c: "construct_component example_core (Some ''CX_1'') None ''2.5'' (Some 2) None
             = Inr ?component"
    by code_simp
  have sb: "parse_subcomponents example_core ''x&y'' (c_datatype ?component) ''2.5''
              example_encoding_chars (Some 2) = Inr ?subs"
    by code_simp
  have qc: "is_quiet example_core (c_validation_level ?component)"
    by (simp add: example_core_def)
  have bc: "is_base_datatype example_core (c_datatype ?component) ''2.5''"
    by (simp add: example_core_def)
  have lc: "1 < length ?subs" by simp
  note T = quiet_clears_base_datatype [where core = example_core and ec = example_encoding_chars]
  from T [THEN conjunct1, THEN mp, OF conjI [OF n conjI [OF f conjI [OF ch conjI [OF q conjI [OF b l]]]]]]
  have 1: "parse_field example_core ''a^b'' (Some ''PID_1'') ''2.5'' example_encoding_chars
          (Some 2) None False =
        Inr \<lparr>f_name = Some ''PID_1'', f_datatype = None, f_children = ?children\<rparr>"
    by simp
  from T [THEN conjunct2, THEN mp, OF conjI [OF c conjI [OF sb conjI [OF qc conjI [OF bc lc]]]]]
  have 2: "parse_component example_core ''x&y'' (Some ''CX_1'') None ''2.5'' example_encoding_chars
          (Some 2) None =
        Inr \<lparr>c_name = Some ''CX_1'', c_datatype = None, c_validation_level = Some 2,
             c_children = ?subs\<rparr>"
    by simp
  from ch have ch': "parse_components example_core ''a^b'' (Some ''SI'') ''2.5''
              example_encoding_chars (Some 2) = Inr ?children" by simp
  from sb have sb': "parse_subcomponents example_core ''x&y'' (Some ''ST'') ''2.5''
              example_encoding_chars (Some 2) = Inr ?subs" by simp
  from b have b': "is_base_datatype example_core (Some ''SI'') ''2.5''" by simp
  have l2: "length ?children = 2" and lc2: "length ?subs = 2" by simp_all
  from f q b' ch' l2 1 c sb' lc2 2 show ?thesis by blast
qed

text \<open>
  Claim C4, where the code departs from it. When the constructor rejects a field
  name, \<open>parse_field\<close> catches the name error under every policy (lines 241-246
  hold no test of the policy, unlike lines 350-351 of \<open>parse_component\<close>) and calls
  the constructor again, unnamed or with the forced \<^verbatim>\<open>varies\<close> reference: an error
  that leaves \<open>parse_field\<close> is the error of that second call, not the name
  error. When the constructor rejects a component name under a policy that is not
  strict, \<open>parse_component\<close> calls \<^verbatim>\<open>Component(datatype, ...)\<close> (line 352), the
  datatype standing where the name is expected: if the constructor rejects that
  too, its error leaves \<open>parse_component\<close> and the decoding is aborted. Under
  strict policy \<open>parse_component\<close> raises the name error again.
\<close>

theorem name_error_handling:
  "(Field core name (Some version) vl reference = Inl InvalidName \<and>
    (if fv then Field core name (Some version) vl (Some (''leaf'', ''varies'', None, None))
     else Field core None (Some version) vl reference) = Inl e \<longrightarrow>
      parse_field core raw name version ec vl reference fv = Inl e) \<and>
   (Component core cname datatype (Some version) vl reference = Inl InvalidName \<and>
    \<not> is_strict core vl \<and>
    Component core datatype None (Some version) vl reference = Inl e \<longrightarrow>
      parse_component core raw cname datatype version ec vl reference = Inl e) \<and>
   (Component core cname datatype (Some version) vl reference = Inl InvalidName \<and>
    is_strict core vl \<longrightarrow>
      parse_component core raw cname datatype version ec vl reference = Inl InvalidName)"
proof (intro conjI impI)
  assume "Field core name (Some version) vl reference = Inl InvalidName \<and>
    (if fv then Field core name (Some version) vl (Some (''leaf'', ''varies'', None, None))
     else Field core None (Some version) vl reference) = Inl e"
  then have "construct_field core name version vl reference fv = Inl e"
    by (auto simp: construct_field_def split: if_splits)
  then show "parse_field core raw name version ec vl reference fv = Inl e"
    by (simp add: parse_field_def)
next
  assume "Component core cname datatype (Some version) vl reference = Inl InvalidName \<and>
    \<not> is_strict core vl \<and>
    Component core datatype None (Some version) vl reference = Inl e"
  then have "construct_component core cname datatype version vl reference = Inl e"
    by (simp add: construct_component_def)
  then show "parse_component core raw cname datatype version ec vl reference = Inl e"
    by (simp add: parse_component_def)
next
  assume "Component core cname datatype (Some version) vl reference = Inl InvalidName \<and>
    is_strict core vl"
  then show "parse_component core raw cname datatype version ec vl reference = Inl InvalidName"
    by (simp add: parse_component_def construct_component_def)
qed

theorem name_error_handling_witness:
  "is_strict example_core (Some 1) \<and>
   Field example_core (Some ''ZZZ_1'') (Some ''2.5'') (Some 1) None = Inl InvalidName \<and>
   Field example_core None (Some ''2.5'') (Some 1) None = Inl (OtherError ''OperationNotAllowed'') \<and>
   parse_field example_core ''a'' (Some ''ZZZ_1'') ''2.5'' example_encoding_chars (Some 1) None False
     = Inl (OtherError ''OperationNotAllowed'') \<and>
   \<not> is_strict example_core (Some 2) \<and>
   Component example_core (Some ''ZZZ_1'') (Some ''ST'') (Some ''2.5'') (Some 2) None
     = Inl InvalidName \<and>
   Component example_core (Some ''ST'') None (Some ''2.5'') (Some 2) None = Inl InvalidName \<and>
   parse_component example_core ''a'' (Some ''ZZZ_1'') (Some ''ST'') ''2.5'' example_encoding_chars
       (Some 2) None = Inl InvalidName \<and>
   Component example_core (Some ''ZZZ_1'') (Some ''ST'') (Some ''2.5'') (Some 1) None
     = Inl InvalidName \<and>
   parse_component example_core ''a'' (Some ''ZZZ_1'') (Some ''ST'') ''2.5'' example_encoding_chars
       (Some 1) None = Inl InvalidName"
proof -
  note T = name_error_handling [where core = example_core and ec = example_encoding_chars
             and raw = "''a''" and version = "''2.5''" and reference = None]
  have s1: "is_strict example_core (Some 1)" and s2: "\<not> is_strict example_core (Some 2)"
    by (simp_all add: example_core_def)
  have f1: "Field example_core (Some ''ZZZ_1'') (Some ''2.5'') (Some 1) None = Inl InvalidName"
    by code_simp
  have f2: "Field example_core None (Some ''2.5'') (Some 1) None
              = Inl (OtherError ''OperationNotAllowed'')"
    by code_simp
  then have f2': "(if False
                   then Field example_core (Some ''ZZZ_1'') (Some ''2.5'') (Some 1)
                          (Some (''leaf'', ''varies'', None, None))
                   else Field example_core None (Some ''2.5'') (Some 1) None)
                    = Inl (OtherError ''OperationNotAllowed'')"
    by simp
  from T [where fv = False, THEN conjunct1, THEN mp, OF conjI [OF f1 f2']]
  have 1: "parse_field example_core ''a'' (Some ''ZZZ_1'') ''2.5'' example_encoding_chars (Some 1)
             None False = Inl (OtherError ''OperationNotAllowed'')" .
  have c2: "Component example_core (Some ''ZZZ_1'') (Some ''ST'') (Some ''2.5'') (Some 2) None
              = Inl InvalidName"
    by code_simp
  have fb: "Component example_core (Some ''ST'') None (Some ''2.5'') (Some 2) None
              = Inl InvalidName"
    by code_simp
  from T [where fv = False, THEN conjunct2, THEN conjunct1, THEN mp,
          OF conjI [OF c2 conjI [OF s2 fb]]]
  have 2: "parse_component example_core ''a'' (Some ''ZZZ_1'') (Some ''ST'') ''2.5''
             example_encoding_chars (Some 2) None = Inl InvalidName" .
  have c1: "Component example_core (Some ''ZZZ_1'') (Some ''ST'') (Some ''2.5'') (Some 1) None
              = Inl InvalidName"
    by code_simp
  from T [where fv = False and e = InvalidName, THEN conjunct2, THEN conjunct2, THEN mp,
          OF conjI [OF c1 s1]]
  have 3: "parse_component example_core ''a'' (Some ''ZZZ_1'') (Some ''ST'') ''2.5''
             example_encoding_chars (Some 1) None = Inl InvalidName" .
  from s1 f1 f2 1 s2 c2 fb 2 c1 3 show ?thesis by (intro conjI)
qed

end
